theory Spec2Isabelle
  imports Main
begin

section \<open>The build orchestrator of gopherjs (tool.go)\<close>

text \<open>
  A shallow embedding of \<^verbatim>\<open>src/gopherjs/tool.go\<close>: the package cache of the
  \<^verbatim>\<open>Translator\<close>, \<^verbatim>\<open>getPackage\<close>, \<^verbatim>\<open>buildPackage\<close> with its freshness
  computation, the artifact file (metadata, the \<^verbatim>\<open>$$\<close> line, payload), and the bundle
  assembly of \<^verbatim>\<open>loadImportsOf\<close>.

  Bytes are \<^typ>\<open>char\<close>, a \<^verbatim>\<open>[]byte\<close> and a Go \<^verbatim>\<open>string\<close> are both \<^typ>\<open>string\<close>.
  A \<^verbatim>\<open>time.Time\<close> is a point on the integer time line; the zero \<^verbatim>\<open>Time\<close> is \<open>0\<close>
  and \<^verbatim>\<open>a.After(b)\<close> is \<open>b < a\<close>.
\<close>

subsection \<open>Errors and results\<close>

text \<open>
  A Go \<^verbatim>\<open>error\<close> value is \<open>Err\<close> (one message) or \<open>ErrList\<close> (a
  \<^verbatim>\<open>scanner.ErrorList\<close>); a run-time panic is \<open>Panic\<close>. The recursion of the
  orchestrator is bounded by fuel: \<open>OutOfFuel\<close> is not a result of the program, it says
  that the model was given too little fuel to finish.
\<close>

datatype error = Err string | ErrList "string list" | Panic string

datatype 'a result = Ok 'a | Fail error | OutOfFuel

subsection \<open>Data\<close>

type_synonym time = int

text \<open>A regular file of the file system: what \<^verbatim>\<open>os.Stat\<close> and \<^verbatim>\<open>os.Open\<close> see.\<close>

record osfile =
  ModTime :: time
  contents :: string
  perm :: nat

text \<open>The fields of \<^verbatim>\<open>go/build.Package\<close> that tool.go reads or writes.\<close>

record BuildPackage =
  Name :: string
  ImportPath :: string
  Imports :: "string list"
  Dir :: string
  GoFiles :: "string list"
  PkgObj :: string
  BinDir :: string

text \<open>\<^verbatim>\<open>type GopherPackage struct { *build.Package; SrcLastModified time.Time; JavaScriptCode []byte }\<close>\<close>

record GopherPackage = BuildPackage +
  SrcLastModified :: time
  JavaScriptCode :: string

text \<open>\<^verbatim>\<open>&GopherPackage{Package: p}\<close>: zero time, nil payload.\<close>

definition newGopherPackage :: "BuildPackage \<Rightarrow> GopherPackage" where
  "newGopherPackage p =
     \<lparr>Name = Name p, ImportPath = ImportPath p, Imports = Imports p, Dir = Dir p,
      GoFiles = GoFiles p, PkgObj = PkgObj p, BinDir = BinDir p,
      SrcLastModified = 0, JavaScriptCode = []\<rparr>"

text \<open>\<^verbatim>\<open>build.Package.IsCommand\<close>: the package is named main.\<close>

definition IsCommand :: "GopherPackage \<Rightarrow> bool" where
  "IsCommand p = (Name p = ''main'')"

text \<open>
  A \<^verbatim>\<open>*types.Package\<close> is an index into the table of type interfaces of the world;
  tool.go reads \<^verbatim>\<open>Path()\<close>, \<^verbatim>\<open>Imports()\<close> and \<^verbatim>\<open>Scope().Names()\<close> of it and never
  changes it. The registry \<^verbatim>\<open>typesConfig.Packages\<close> maps an import path to such a pointer,
  which can be nil (\<open>Some None\<close>: the key is there, the pointer is nil).
\<close>

type_synonym tid = nat

record TypesPackage =
  Path :: string
  TypeImports :: "tid list"
  ScopeNames :: "string list"

type_synonym registry = "string \<rightharpoonup> tid option"

definition regLookup :: "registry \<Rightarrow> string \<Rightarrow> tid option" where
  "regLookup reg k = (case reg k of None \<Rightarrow> None | Some p \<Rightarrow> p)"

text \<open>
  A \<^verbatim>\<open>*GopherPackage\<close> is either the descriptor that \<^verbatim>\<open>main\<close> creates (its local
  variable \<^verbatim>\<open>pkg\<close>) or the descriptor stored in \<^verbatim>\<open>t.packages\<close> under a key:
  \<^verbatim>\<open>getPackage\<close> stores a pointer only under a key that is not yet in the map, so a key
  names one object for the whole run, and what \<^verbatim>\<open>buildPackage\<close> writes through the
  pointer is seen through the map.
\<close>

datatype ref = Entry | Cached string

text \<open>The calls whose number the specification bounds, in the order they are made.\<close>

datatype event = EvBuild string | EvTranslate string

text \<open>
  The collaborators and the environment of one run. None of them is in tool.go; each is a
  parameter:
  \<^item> \<open>Args0\<close>: \<^verbatim>\<open>os.Args[0]\<close>, the path of gopherjs itself;
  \<^item> \<open>bc_Import path srcDir\<close>: \<^verbatim>\<open>t.buildContext.Import(path, srcDir, 0)\<close>;
  \<^item> \<open>parser_ParseFile\<close>: the \<^verbatim>\<open>Path.Value\<close> literals of the imports of a parsed file;
  \<^item> \<open>path_Dir\<close>: \<^verbatim>\<open>path.Dir\<close>;
  \<^item> \<open>translatePackage\<close>: the translation collaborator, reading and writing the registry;
  \<^item> \<open>GcImportData\<close>: the metadata decoder; it also says how many bytes of the file its
    buffered reader has taken, which is where the file offset stands afterwards;
  \<^item> \<open>exportData\<close>: the metadata blob that \<^verbatim>\<open>gcexporter.Write\<close> produces;
  \<^item> \<open>trimmedPrelude\<close>: \<^verbatim>\<open>strings.TrimSpace(prelude)\<close>;
  \<^item> \<open>typesPkg\<close>: the table of type interfaces, \<open>Unsafe\<close>: \<^verbatim>\<open>types.Unsafe\<close>;
  \<^item> \<open>unicode_IsUpper\<close>: whether a name that starts with a non-ASCII rune starts with an
    upper case letter;
  \<^item> \<open>os_MkdirAll_err\<close>, \<open>os_OpenFile_err\<close>: the error, if any, of creating the directory
    and of opening the artifact for writing; \<open>writeTime\<close>: the modification time the file
    system gives a file written at a path.
\<close>

record world =
  Args0 :: string
  bc_Import :: "string \<Rightarrow> string \<Rightarrow> error + BuildPackage"
  parser_ParseFile :: "string \<Rightarrow> error + string list"
  path_Dir :: "string \<Rightarrow> string"
  translatePackage :: "string \<Rightarrow> string \<Rightarrow> string list \<Rightarrow> registry \<Rightarrow> (error + string) \<times> registry"
  GcImportData :: "registry \<Rightarrow> string \<Rightarrow> string \<Rightarrow> string \<Rightarrow> (error + tid) \<times> registry \<times> nat"
  exportData :: "tid option \<Rightarrow> string"
  trimmedPrelude :: string
  typesPkg :: "tid \<Rightarrow> TypesPackage"
  Unsafe :: tid
  unicode_IsUpper :: "string \<Rightarrow> bool"
  os_MkdirAll_err :: "string \<Rightarrow> error option"
  os_OpenFile_err :: "string \<Rightarrow> error option"
  writeTime :: "string \<Rightarrow> time"

text \<open>
  The state of a run: the \<^verbatim>\<open>Translator\<close> (\<open>typesPackages\<close> is
  \<^verbatim>\<open>typesConfig.Packages\<close>), the descriptor of \<^verbatim>\<open>main\<close>, the regular files of the file
  system, and the calls made so far.
\<close>

record Translator =
  typesPackages :: registry
  packages :: "string \<rightharpoonup> GopherPackage"
  entry :: GopherPackage
  fs :: "string \<rightharpoonup> osfile"
  trace :: "event list"

definition deref :: "Translator \<Rightarrow> ref \<Rightarrow> GopherPackage option" where
  "deref s r = (case r of Entry \<Rightarrow> Some (entry s) | Cached k \<Rightarrow> packages s k)"

definition modify :: "ref \<Rightarrow> (GopherPackage \<Rightarrow> GopherPackage) \<Rightarrow> Translator \<Rightarrow> Translator" where
  "modify r f s =
     (case r of
        Entry \<Rightarrow> s\<lparr>entry := f (entry s)\<rparr>
      | Cached k \<Rightarrow> s\<lparr>packages := (packages s)(k := map_option f (packages s k))\<rparr>)"

subsection \<open>The artifact file: reading back the payload\<close>

definition newline :: char where
  "newline = CHR 0x0A"

definition sentinel :: string where
  "sentinel = [CHR ''$'', CHR ''$'', newline]"

text \<open>
  \<^verbatim>\<open>objFile.Read(buf)\<close> with \<^verbatim>\<open>buf := make([]byte, 3)\<close>: up to three bytes from the
  offset, the rest of the buffer keeps what it held; at the end of the file nothing is
  read and the error is \<^verbatim>\<open>io.EOF\<close> (the last component).
\<close>

fun file_Read3 :: "string \<Rightarrow> nat \<Rightarrow> char \<times> char \<times> char \<Rightarrow> (char \<times> char \<times> char) \<times> nat \<times> bool" where
  "file_Read3 c pos (b0, b1, b2) =
     (case drop pos c of
        [] \<Rightarrow> ((b0, b1, b2), pos, True)
      | [x] \<Rightarrow> ((x, b1, b2), pos + 1, False)
      | [x, y] \<Rightarrow> ((x, y, b2), pos + 2, False)
      | x # y # z # _ \<Rightarrow> ((x, y, z), pos + 3, False))"

datatype scan = Found nat | ReachedStart | ReadError

text \<open>
  Lines 223-230:
  \<^verbatim>\<open>for string(buf) != "$$\n" { if _, err := objFile.Seek(-4, 1); err != nil { return nil }
       if _, err := objFile.Read(buf); err != nil { return err } }\<close>
  \<^verbatim>\<open>Seek(-4, 1)\<close> fails when the offset would become negative. \<open>Found pos\<close> is the
  offset after the matched window.
\<close>

function searchBackwards :: "string \<Rightarrow> nat \<Rightarrow> char \<times> char \<times> char \<Rightarrow> scan" where
  "searchBackwards c pos buf =
     (if buf = (CHR ''$'', CHR ''$'', newline) then Found pos
      else if pos < 4 then ReachedStart
      else (case file_Read3 c (pos - 4) buf of
              (buf', pos', eof) \<Rightarrow> if eof then ReadError else searchBackwards c pos' buf'))"
  by pat_completeness auto
termination
  by (relation "measure (\<lambda>(c, pos, buf). pos)") (auto split: list.splits)

declare searchBackwards.simps [simp del]

text \<open>
  Lines 220-237, after the metadata has been decoded: the first \<^verbatim>\<open>Read\<close> at the offset
  \<open>off\<close> where the decoder's reader left the file (its error is ignored), the scan, and
  \<^verbatim>\<open>ioutil.ReadAll\<close>. \<open>None\<close> is the early \<^verbatim>\<open>return nil\<close> that leaves the payload
  unset, \<open>Some (Inr p)\<close> is the payload read.
\<close>

definition readPayload :: "string \<Rightarrow> nat \<Rightarrow> (error + string) option" where
  "readPayload c off =
     (case file_Read3 c (min off (length c)) (CHR 0x00, CHR 0x00, CHR 0x00) of
        (buf, pos, _) \<Rightarrow>
          (case searchBackwards c pos buf of
             ReachedStart \<Rightarrow> None
           | ReadError \<Rightarrow> Some (Inl (Err ''EOF''))
           | Found p \<Rightarrow> Some (Inr (drop p c))))"

subsection \<open>The artifact file: writing\<close>

text \<open>
  Modelled from the spec: \<^verbatim>\<open>gcexporter.Write\<close> is not in tool.go. For a library the
  artifact is a type-interface metadata blob followed by the sentinel line, followed by
  the payload; tool.go writes the payload itself, so the blob and the sentinel line are
  what \<^verbatim>\<open>gcexporter.Write\<close> writes.
\<close>

definition gcexporter_Write :: "world \<Rightarrow> tid option \<Rightarrow> string" where
  "gcexporter_Write w tp = exportData w tp @ sentinel"

definition shebang :: string where
  "shebang = ''#!/usr/bin/env node'' @ [newline]"

text \<open>
  Lines 294-317. The errors of the three \<^verbatim>\<open>Write\<close> calls are ignored by the source; the
  file is created with the permission bits given, an existing file keeps its own.
  Directories are not files of \<open>fs\<close>: \<^verbatim>\<open>os.MkdirAll\<close> can only fail or succeed.
\<close>

definition writeArtifact :: "world \<Rightarrow> Translator \<Rightarrow> ref \<Rightarrow> bool \<Rightarrow> unit result \<times> Translator" where
  "writeArtifact w s r writeToDisk =
     (case deref s r of
        None \<Rightarrow> (Fail (Panic ''nil pointer dereference''), s)
      | Some pkg \<Rightarrow>
          if \<not> writeToDisk then (Ok (), s)
          else (case os_MkdirAll_err w (path_Dir w (PkgObj pkg)) of
                  Some e \<Rightarrow> (Fail e, s)
                | None \<Rightarrow>
                    (case os_OpenFile_err w (PkgObj pkg) of
                       Some e \<Rightarrow> (Fail e, s)
                     | None \<Rightarrow>
                         (Ok (),
                          s\<lparr>fs := (fs s)(PkgObj pkg \<mapsto>
                             \<lparr>ModTime = writeTime w (PkgObj pkg),
                              contents =
                                (if IsCommand pkg then shebang else [])
                                @ (if \<not> IsCommand pkg
                                   then gcexporter_Write w (regLookup (typesPackages s) (ImportPath pkg))
                                   else [])
                                @ JavaScriptCode pkg,
                              perm = (case fs s (PkgObj pkg) of
                                        Some f \<Rightarrow> perm f
                                      | None \<Rightarrow> if IsCommand pkg then 511 else 438)\<rparr>)\<rparr>))))"

subsection \<open>The module registration block\<close>

text \<open>
  \<^verbatim>\<open>ast.IsExported\<close>: the first rune of the name is an upper case letter. For an ASCII
  first byte that is \<open>A\<close> to \<open>Z\<close>; other runes are asked of the world.
\<close>

definition ast_IsExported :: "world \<Rightarrow> string \<Rightarrow> bool" where
  "ast_IsExported w name =
     (case name of
        [] \<Rightarrow> False
      | c # _ \<Rightarrow>
          if of_char c < (128 :: nat)
          then (of_char (CHR ''A'') \<le> (of_char c :: nat) \<and> (of_char c :: nat) \<le> of_char (CHR ''Z''))
          else unicode_IsUpper w name)"

text \<open>Lines 273-278: the loop that collects \<^verbatim>\<open>fmt.Sprintf("%s: %s", name, name)\<close>.\<close>

fun exportsLoop :: "world \<Rightarrow> string list \<Rightarrow> string list \<Rightarrow> string list" where
  "exportsLoop w exports [] = exports"
| "exportsLoop w exports (name # names) =
     exportsLoop w (if ast_IsExported w name then exports @ [name @ '': '' @ name] else exports) names"

text \<open>\<^verbatim>\<open>strings.Join\<close>\<close>

fun strings_Join :: "string list \<Rightarrow> string \<Rightarrow> string" where
  "strings_Join [] sep = []"
| "strings_Join [x] sep = x"
| "strings_Join (x # y # ys) sep = x @ sep @ strings_Join (y # ys) sep"

text \<open>Lines 271-280: what one iteration appends to \<^verbatim>\<open>jsCode\<close>.\<close>

definition moduleBlock :: "world \<Rightarrow> TypesPackage \<Rightarrow> string \<Rightarrow> string" where
  "moduleBlock w imp code =
     (''Go$packages['' @ [CHR 0x22] @ Path imp @ [CHR 0x22] @ ''] = (function() {'')
     @ code
     @ ([CHR 0x09] @ ''return { '' @ strings_Join (exportsLoop w [] (ScopeNames imp)) '', '' @ '' };'' @ [newline])
     @ (''})();'' @ [newline])"

definition excluded :: "string \<Rightarrow> bool" where
  "excluded p = (p = ''unsafe'' \<or> p = ''reflect'' \<or> p = ''go/doc'')"

subsection \<open>Freshness and the cache-hit path\<close>

text \<open>Lines 192-200: the modification times of the source files.\<close>

fun filesLoop :: "Translator \<Rightarrow> ref \<Rightarrow> string \<Rightarrow> string list \<Rightarrow> unit result \<times> Translator" where
  "filesLoop s r dir [] = (Ok (), s)"
| "filesLoop s r dir (name # names) =
     (case fs s (dir @ ''/'' @ name) of
        None \<Rightarrow> (Fail (Err (''stat '' @ dir @ ''/'' @ name)), s)
      | Some fileInfo \<Rightarrow>
          (case deref s r of
             None \<Rightarrow> (Fail (Panic ''nil pointer dereference''), s)
           | Some pkg \<Rightarrow>
               filesLoop
                 (if SrcLastModified pkg < ModTime fileInfo
                  then modify r (SrcLastModified_update (\<lambda>_. ModTime fileInfo)) s
                  else s)
                 r dir names))"

text \<open>
  Line 203: \<^verbatim>\<open>err == nil && fileInfo.ModTime().After(pkg.SrcLastModified) && writeToDisk\<close>
\<close>

definition upToDate :: "Translator \<Rightarrow> GopherPackage \<Rightarrow> bool \<Rightarrow> bool" where
  "upToDate s pkg writeToDisk =
     (case fs s (PkgObj pkg) of
        None \<Rightarrow> False
      | Some fileInfo \<Rightarrow> SrcLastModified pkg < ModTime fileInfo \<and> writeToDisk)"

text \<open>
  Lines 204-238, the package object is up to date. The registry entry of the package is
  assigned before the error of \<^verbatim>\<open>GcImportData\<close> is looked at.
\<close>

definition loadFromDisk :: "world \<Rightarrow> Translator \<Rightarrow> ref \<Rightarrow> GopherPackage \<Rightarrow> unit result \<times> Translator" where
  "loadFromDisk w s r pkg =
     (if IsCommand pkg then (Ok (), s)
      else (case fs s (PkgObj pkg) of
              None \<Rightarrow> (Fail (Err (''open '' @ PkgObj pkg)), s)
            | Some objFile \<Rightarrow>
                (case GcImportData w (typesPackages s) (PkgObj pkg) (ImportPath pkg) (contents objFile) of
                   (Inl e, reg, off) \<Rightarrow>
                     (Fail e, s\<lparr>typesPackages := reg(ImportPath pkg \<mapsto> None)\<rparr>)
                 | (Inr tp, reg, off) \<Rightarrow>
                     (case readPayload (contents objFile) off of
                        None \<Rightarrow> (Ok (), s\<lparr>typesPackages := reg(ImportPath pkg \<mapsto> Some tp)\<rparr>)
                      | Some (Inl e) \<Rightarrow> (Fail e, s\<lparr>typesPackages := reg(ImportPath pkg \<mapsto> Some tp)\<rparr>)
                      | Some (Inr code) \<Rightarrow>
                          (Ok (),
                           modify r (JavaScriptCode_update (\<lambda>_. code))
                             (s\<lparr>typesPackages := reg(ImportPath pkg \<mapsto> Some tp)\<rparr>))))))"

text \<open>Line 240: the call of the translation collaborator, recorded in the trace.\<close>

definition translateStep :: "world \<Rightarrow> Translator \<Rightarrow> GopherPackage \<Rightarrow> (error + string) \<times> Translator" where
  "translateStep w s pkg =
     (case translatePackage w (ImportPath pkg) (Dir pkg) (GoFiles pkg) (typesPackages s) of
        (res, reg) \<Rightarrow>
          (res, s\<lparr>typesPackages := reg, trace := trace s @ [EvTranslate (ImportPath pkg)]\<rparr>))"

subsection \<open>getPackage, buildPackage and loadImportsOf\<close>

text \<open>
  \<^verbatim>\<open>getPackage\<close>, \<^verbatim>\<open>buildPackage\<close> and the closure \<^verbatim>\<open>loadImportsOf\<close> call each other.
  The recursion is bounded by fuel and tied at \<open>buildPackage\<close>: the functions that call
  \<^verbatim>\<open>t.buildPackage\<close> take it as the parameter \<open>build\<close>, which \<open>buildPackage (Suc n)\<close>
  instantiates with \<open>buildPackage n\<close>.
\<close>

type_synonym builder = "Translator \<Rightarrow> ref \<Rightarrow> bool \<Rightarrow> unit result \<times> Translator"

text \<open>
  Lines 153-168. \<^verbatim>\<open>getPackage\<close> does not read its parameter \<^verbatim>\<open>writeToDisk\<close>: line 164
  is \<^verbatim>\<open>t.buildPackage(pkg, true)\<close>.
\<close>

definition getPackageWith :: "builder \<Rightarrow> world \<Rightarrow> Translator \<Rightarrow> string \<Rightarrow> string \<Rightarrow> bool \<Rightarrow> ref result \<times> Translator" where
  "getPackageWith build w s importPath srcDir writeToDisk =
     (case packages s importPath of
        Some pkg \<Rightarrow> (Ok (Cached importPath), s)
      | None \<Rightarrow>
          (case bc_Import w importPath srcDir of
             Inl err \<Rightarrow> (Fail err, s)
           | Inr otherPkg \<Rightarrow>
               (case build (s\<lparr>packages := (packages s)(importPath \<mapsto> newGopherPackage otherPkg)\<rparr>)
                       (Cached importPath) True of
                  (Ok u, s') \<Rightarrow> (Ok (Cached importPath), s')
                | (Fail err, s') \<Rightarrow> (Fail err, s')
                | (OutOfFuel, s') \<Rightarrow> (OutOfFuel, s'))))"

text \<open>Lines 182-190: the imports of the package, each folded into its freshness timestamp.\<close>

fun importsLoop :: "builder \<Rightarrow> world \<Rightarrow> Translator \<Rightarrow> ref \<Rightarrow> string \<Rightarrow> string list \<Rightarrow> unit result \<times> Translator" where
  "importsLoop build w s r dir [] = (Ok (), s)"
| "importsLoop build w s r dir (importedPkgPath # rest) =
     (case getPackageWith build w s importedPkgPath dir True of
        (OutOfFuel, s1) \<Rightarrow> (OutOfFuel, s1)
      | (Fail err, s1) \<Rightarrow> (Fail err, s1)
      | (Ok c, s1) \<Rightarrow>
          (case (deref s1 c, deref s1 r) of
             (Some compiledPkg, Some pkg) \<Rightarrow>
               importsLoop build w
                 (if SrcLastModified pkg < SrcLastModified compiledPkg
                  then modify r (SrcLastModified_update (\<lambda>_. SrcLastModified compiledPkg)) s1
                  else s1)
                 r dir rest
           | _ \<Rightarrow> (Fail (Panic ''nil pointer dereference''), s1)))"

text \<open>
  Lines 252-283: the closure \<^verbatim>\<open>loadImportsOf\<close>; \<open>loadLoop\<close> is its \<^verbatim>\<open>for\<close> loop. The
  closure variables \<^verbatim>\<open>loaded\<close> and \<^verbatim>\<open>jsCode\<close> travel with the state, \<open>dir\<close> is
  \<^verbatim>\<open>pkg.Dir\<close> of the executable. A nil \<^verbatim>\<open>*types.Package\<close> panics at
  \<^verbatim>\<open>typesPkg.Imports()\<close>. Each nested call of the closure takes one unit of fuel.
\<close>

fun loadImportsOf :: "nat \<Rightarrow> builder \<Rightarrow> world \<Rightarrow> string \<Rightarrow> Translator \<times> tid set \<times> string \<Rightarrow> tid option
                         \<Rightarrow> unit result \<times> Translator \<times> tid set \<times> string"
  and loadLoop :: "nat \<Rightarrow> builder \<Rightarrow> world \<Rightarrow> string \<Rightarrow> Translator \<times> tid set \<times> string \<Rightarrow> tid list
                         \<Rightarrow> unit result \<times> Translator \<times> tid set \<times> string"
where
  "loadImportsOf 0 build w dir st typesPkgPtr = (OutOfFuel, st)"
| "loadImportsOf (Suc n) build w dir st typesPkgPtr =
     (case typesPkgPtr of
        None \<Rightarrow> (Fail (Panic ''nil pointer dereference''), st)
      | Some tp \<Rightarrow> loadLoop n build w dir st (TypeImports (typesPkg w tp)))"
| "loadLoop n build w dir st [] = (Ok (), st)"
| "loadLoop n build w dir (s, loaded, jsCode) (imp # rest) =
     (if excluded (Path (typesPkg w imp)) then loadLoop n build w dir (s, loaded, jsCode) rest
      else if imp \<in> loaded then loadLoop n build w dir (s, loaded, jsCode) rest
      else
        (case loadImportsOf n build w dir (s, insert imp loaded, jsCode) (Some imp) of
           (OutOfFuel, st1) \<Rightarrow> (OutOfFuel, st1)
         | (Fail err, st1) \<Rightarrow> (Fail err, st1)
         | (Ok u, s1, loaded1, jsCode1) \<Rightarrow>
             (case getPackageWith build w s1 (Path (typesPkg w imp)) dir False of
                (OutOfFuel, s2) \<Rightarrow> (OutOfFuel, s2, loaded1, jsCode1)
              | (Fail err, s2) \<Rightarrow> (Fail err, s2, loaded1, jsCode1)
              | (Ok g, s2) \<Rightarrow>
                  (case deref s2 g of
                     None \<Rightarrow> (Fail (Panic ''nil pointer dereference''), s2, loaded1, jsCode1)
                   | Some gopherPkg \<Rightarrow>
                       loadLoop n build w dir
                         (s2, loaded1, jsCode1 @ moduleBlock w (typesPkg w imp) (JavaScriptCode gopherPkg))
                         rest))))"

text \<open>
  Lines 240-317, the package has to be compiled: translation, for a command the bundle
  (the prelude, the blocks of \<^verbatim>\<open>loadImportsOf\<close>, the package's own code and
  \<^verbatim>\<open>main();\<close>), then the artifact.
\<close>

definition compilePackage :: "nat \<Rightarrow> builder \<Rightarrow> world \<Rightarrow> Translator \<Rightarrow> ref \<Rightarrow> GopherPackage \<Rightarrow> bool \<Rightarrow> unit result \<times> Translator" where
  "compilePackage n build w s r pkg writeToDisk =
     (case translateStep w s pkg of
        (Inl err, s3) \<Rightarrow> (Fail err, s3)
      | (Inr packageCode, s3) \<Rightarrow>
          if IsCommand pkg
          then
            (case loadImportsOf n build w (Dir pkg) (s3, {}, trimmedPrelude w @ [newline])
                    (regLookup (typesPackages s3) (ImportPath pkg)) of
               (OutOfFuel, s4, loaded, jsCode) \<Rightarrow> (OutOfFuel, s4)
             | (Fail err, s4, loaded, jsCode) \<Rightarrow> (Fail err, s4)
             | (Ok u, s4, loaded, jsCode) \<Rightarrow>
                 writeArtifact w
                   (modify r (JavaScriptCode_update (\<lambda>_. jsCode @ packageCode @ ''main();'')) s4)
                   r writeToDisk)
          else
            writeArtifact w (modify r (JavaScriptCode_update (\<lambda>_. packageCode)) s3) r writeToDisk)"

text \<open>Lines 202-203 and what follows: the cache-hit check, then loading or compiling.\<close>

definition finishBuild :: "nat \<Rightarrow> builder \<Rightarrow> world \<Rightarrow> Translator \<Rightarrow> ref \<Rightarrow> bool \<Rightarrow> unit result \<times> Translator" where
  "finishBuild n build w s r writeToDisk =
     (case deref s r of
        None \<Rightarrow> (Fail (Panic ''nil pointer dereference''), s)
      | Some pkg \<Rightarrow>
          if upToDate s pkg writeToDisk then loadFromDisk w s r pkg
          else compilePackage n build w s r pkg writeToDisk)"

text \<open>Lines 170-200: the body of \<^verbatim>\<open>buildPackage\<close> up to the freshness timestamp.\<close>

definition buildBody :: "nat \<Rightarrow> builder \<Rightarrow> world \<Rightarrow> Translator \<Rightarrow> ref \<Rightarrow> bool \<Rightarrow> unit result \<times> Translator" where
  "buildBody n build w s r writeToDisk =
     (case deref s r of
        None \<Rightarrow> (Fail (Panic ''nil pointer dereference''), s)
      | Some pkg \<Rightarrow>
          if ImportPath pkg = ''unsafe''
          then (Ok (), s\<lparr>typesPackages := (typesPackages s)(''unsafe'' \<mapsto> Some (Unsafe w)),
                          trace := trace s @ [EvBuild (ImportPath pkg)]\<rparr>)
          else
            (case fs s (Args0 w) of
               None \<Rightarrow> (Fail (Err (''stat '' @ Args0 w)), s\<lparr>trace := trace s @ [EvBuild (ImportPath pkg)]\<rparr>)
             | Some fileInfo \<Rightarrow>
                 (case importsLoop build w
                         (modify r (SrcLastModified_update (\<lambda>_. ModTime fileInfo))
                            (s\<lparr>trace := trace s @ [EvBuild (ImportPath pkg)]\<rparr>))
                         r (Dir pkg) (Imports pkg) of
                    (OutOfFuel, s1) \<Rightarrow> (OutOfFuel, s1)
                  | (Fail err, s1) \<Rightarrow> (Fail err, s1)
                  | (Ok u, s1) \<Rightarrow>
                      (case filesLoop s1 r (Dir pkg) (GoFiles pkg) of
                         (OutOfFuel, s2) \<Rightarrow> (OutOfFuel, s2)
                       | (Fail err, s2) \<Rightarrow> (Fail err, s2)
                       | (Ok u, s2) \<Rightarrow> finishBuild n build w s2 r writeToDisk))))"

fun buildPackage :: "nat \<Rightarrow> world \<Rightarrow> builder" where
  "buildPackage 0 w = (\<lambda>s r writeToDisk. (OutOfFuel, s))"
| "buildPackage (Suc n) w = buildBody n (buildPackage n w) w"

definition getPackage :: "nat \<Rightarrow> world \<Rightarrow> Translator \<Rightarrow> string \<Rightarrow> string \<Rightarrow> bool \<Rightarrow> ref result \<times> Translator" where
  "getPackage n w = getPackageWith (buildPackage n w) w"

subsection \<open>What the scan computes\<close>

text \<open>
  The specification of the scan, used in the proofs: \<open>occursAt c k\<close> says that the three
  bytes of \<open>c\<close> at offset \<open>k\<close> are the sentinel line, \<open>scanSpec c k\<close> looks for the
  nearest such offset at or before \<open>k\<close>, and \<open>hasSentinel\<close> says that there is one
  somewhere.
\<close>

definition occursAt :: "string \<Rightarrow> nat \<Rightarrow> bool" where
  "occursAt c k = (take 3 (drop k c) = sentinel)"

definition window :: "string \<Rightarrow> nat \<Rightarrow> char \<times> char \<times> char" where
  "window c k = (c ! k, c ! Suc k, c ! Suc (Suc k))"

fun scanSpec :: "string \<Rightarrow> nat \<Rightarrow> scan" where
  "scanSpec c 0 = (if occursAt c 0 then Found 3 else ReachedStart)"
| "scanSpec c (Suc k) = (if occursAt c (Suc k) then Found (Suc k + 3) else scanSpec c k)"

fun hasSentinel :: "string \<Rightarrow> bool" where
  "hasSentinel [] = False"
| "hasSentinel (x # xs) = (take 3 (x # xs) = sentinel \<or> hasSentinel xs)"

subsection \<open>The descriptor that main creates\<close>

text \<open>
  \<^verbatim>\<open>path.Base\<close> of the standard library: the empty path gives \<^verbatim>\<open>.\<close>, trailing slashes
  are stripped, the last element is what follows the last slash, and a path of slashes
  only gives \<^verbatim>\<open>/\<close>.
\<close>

function stripTrailingSlashes :: "string \<Rightarrow> string" where
  "stripTrailingSlashes p =
     (if p \<noteq> [] \<and> last p = CHR ''/'' then stripTrailingSlashes (butlast p) else p)"
  by pat_completeness auto
termination
  by (relation "measure length") auto

declare stripTrailingSlashes.simps [simp del]

definition path_Base :: "string \<Rightarrow> string" where
  "path_Base p =
     (if p = [] then ''.''
      else (let e = rev (takeWhile (\<lambda>c. c \<noteq> CHR ''/'') (rev (stripTrailingSlashes p)))
            in if e = [] then ''/'' else e))"

text \<open>
  What the \<^verbatim>\<open>switch\<close> of \<^verbatim>\<open>main\<close> (lines 67-122) leaves: the descriptor to build, a
  return after a message was printed, or a panic.
\<close>

datatype outcome = Proceed GopherPackage | Returned | Panicked string

text \<open>
  Line 88 slices the quotes off an import literal, \<^verbatim>\<open>Value[1 : len(Value)-1]\<close>; line 99
  is \<^verbatim>\<open>basename[:len(basename)-3] + ".js"\<close>. A slice expression whose bounds are out of
  range panics.
\<close>

definition entryPackage :: "world \<Rightarrow> string \<Rightarrow> string \<Rightarrow> outcome" where
  "entryPackage w cmd arg1 =
     (if cmd = ''install'' then
        (case bc_Import w arg1 [] of
           Inl err \<Rightarrow> Returned
         | Inr buildPkg \<Rightarrow>
             Proceed ((newGopherPackage buildPkg)
               \<lparr>PkgObj := BinDir buildPkg @ ''/'' @ path_Base (ImportPath buildPkg) @ ''.js''\<rparr>))
      else if cmd = ''build'' \<or> cmd = ''run'' then
        (case parser_ParseFile w arg1 of
           Inl err \<Rightarrow> Returned
         | Inr literals \<Rightarrow>
             if list_ex (\<lambda>v. length v < 2) literals
             then Panicked ''slice bounds out of range (import path)''
             else (let basename = path_Base arg1 in
                   if length basename < 3 then Panicked ''slice bounds out of range (basename)''
                   else Proceed
                     \<lparr>Name = ''main'', ImportPath = ''main'',
                      Imports = map (\<lambda>v. take (length v - 2) (drop 1 v)) literals,
                      Dir = path_Dir w arg1, GoFiles = [basename],
                      PkgObj = take (length basename - 3) basename @ ''.js'', BinDir = [],
                      SrcLastModified = 0, JavaScriptCode = []\<rparr>))
      else Returned)"

text \<open>
  \<^verbatim>\<open>main\<close> up to line 124: a new \<^verbatim>\<open>Translator\<close> with empty maps, and
  \<^verbatim>\<open>t.buildPackage(pkg, cmd != "run")\<close> on the files given. \<open>None\<close>: nothing was built.
\<close>

definition newTranslator :: "GopherPackage \<Rightarrow> (string \<rightharpoonup> osfile) \<Rightarrow> Translator" where
  "newTranslator pkg files =
     \<lparr>typesPackages = Map.empty, packages = Map.empty, entry = pkg, fs = files, trace = []\<rparr>"

definition main :: "nat \<Rightarrow> world \<Rightarrow> (string \<rightharpoonup> osfile) \<Rightarrow> string \<Rightarrow> string \<Rightarrow> (unit result \<times> Translator) option" where
  "main n w files cmd arg1 =
     (case entryPackage w cmd arg1 of
        Proceed pkg \<Rightarrow> Some (buildPackage n w (newTranslator pkg files) Entry (cmd \<noteq> ''run''))
      | Returned \<Rightarrow> None
      | Panicked msg \<Rightarrow> None)"

subsection \<open>A concrete run\<close>

text \<open>
  A small world on which the theorems are instantiated: the executable \<^verbatim>\<open>main.go\<close>
  imports the libraries \<open>b\<close> and \<open>c\<close>, which both import \<open>d\<close>. The scope of \<open>b\<close> has the
  names \<open>Bar\<close>, \<open>Foo\<close> and \<open>baz\<close>. The translation of a package \<open>p\<close> is the text
  \<open>code of p;\<close>, its metadata blob is \<open>meta\<close>, and the metadata decoder reads the whole
  artifact into its buffer.
\<close>

definition exPackage :: "string \<Rightarrow> string list \<Rightarrow> BuildPackage" where
  "exPackage p imps =
     \<lparr>Name = p, ImportPath = p, Imports = imps, Dir = ''src/'' @ p,
      GoFiles = [p @ ''.go''], PkgObj = ''pkg/'' @ p @ ''.a'', BinDir = ''bin''\<rparr>"

definition exTid :: "string \<Rightarrow> tid" where
  "exTid p = (if p = ''main'' then 0 else if p = ''b'' then 1 else if p = ''c'' then 2
              else if p = ''d'' then 3 else 4)"

definition exTypes :: "tid \<Rightarrow> TypesPackage" where
  "exTypes t =
     (if t = 0 then \<lparr>Path = ''main'', TypeImports = [1, 2], ScopeNames = [''main'']\<rparr>
      else if t = 1 then \<lparr>Path = ''b'', TypeImports = [3], ScopeNames = [''Bar'', ''Foo'', ''baz'']\<rparr>
      else if t = 2 then \<lparr>Path = ''c'', TypeImports = [3], ScopeNames = [''C'']\<rparr>
      else if t = 3 then \<lparr>Path = ''d'', TypeImports = [], ScopeNames = []\<rparr>
      else \<lparr>Path = ''unsafe'', TypeImports = [], ScopeNames = []\<rparr>)"

definition exWorld :: world where
  "exWorld =
     \<lparr>Args0 = ''gopherjs'',
      bc_Import = (\<lambda>p dir. if p = ''b'' then Inr (exPackage ''b'' [''d''])
                            else if p = ''c'' then Inr (exPackage ''c'' [''d''])
                            else if p = ''d'' then Inr (exPackage ''d'' [])
                            else Inl (Err ''cannot find package'')),
      parser_ParseFile = (\<lambda>f. if f = ''main.go'' \<or> f = ''a''
                                then Inr [[CHR 0x22] @ ''b'' @ [CHR 0x22], [CHR 0x22] @ ''c'' @ [CHR 0x22]]
                                else Inl (Err ''no such file'')),
      path_Dir = (\<lambda>p. ''.''),
      translatePackage = (\<lambda>p dir files reg. (Inr (''code of '' @ p @ '';''), reg(p \<mapsto> Some (exTid p)))),
      GcImportData = (\<lambda>reg filename p c. (Inr (exTid p), reg(p \<mapsto> Some (exTid p)), length c)),
      exportData = (\<lambda>t. ''meta''),
      trimmedPrelude = ''prelude'',
      typesPkg = exTypes,
      Unsafe = 4,
      unicode_IsUpper = (\<lambda>name. False),
      os_MkdirAll_err = (\<lambda>p. None),
      os_OpenFile_err = (\<lambda>p. None),
      writeTime = (\<lambda>p. 100)\<rparr>"

definition exSource :: "time \<Rightarrow> osfile" where
  "exSource m = \<lparr>ModTime = m, contents = ''package'', perm = 420\<rparr>"

definition exFiles :: "string \<rightharpoonup> osfile" where
  "exFiles = [''gopherjs'' \<mapsto> exSource 10, ''./main.go'' \<mapsto> exSource 20,
              ''src/b/b.go'' \<mapsto> exSource 30, ''src/c/c.go'' \<mapsto> exSource 5,
              ''src/d/d.go'' \<mapsto> exSource 40]"

text \<open>
  The library \<open>d\<close> built on its own: \<open>exLibState c\<close> is a new run in which the artifact
  of \<open>d\<close> holds the bytes \<open>c\<close>; \<open>exFirstBuild w\<close> is the state after building \<open>d\<close>
  where no artifact exists, \<open>exRebuild w\<close> the state after building it again in a new run
  on the files that the first build left.
\<close>

definition exLibrary :: GopherPackage where
  "exLibrary = newGopherPackage (exPackage ''d'' [])"

definition exArtifact :: "string \<Rightarrow> osfile" where
  "exArtifact c = \<lparr>ModTime = 100, contents = c, perm = 438\<rparr>"

definition exLibState :: "string \<Rightarrow> Translator" where
  "exLibState c = newTranslator exLibrary (exFiles(''pkg/d.a'' \<mapsto> exArtifact c))"

definition exFirstBuild :: "world \<Rightarrow> Translator" where
  "exFirstBuild w = snd (buildPackage 5 w (newTranslator exLibrary exFiles) Entry True)"

definition exRebuild :: "world \<Rightarrow> Translator" where
  "exRebuild w = snd (buildPackage 5 w (newTranslator exLibrary (fs (exFirstBuild w))) Entry True)"

text \<open>The same world with a translation whose second line starts after \<^verbatim>\<open>$$\<close>.\<close>

definition exWorldSentinel :: world where
  "exWorldSentinel =
     exWorld\<lparr>translatePackage :=
       (\<lambda>p dir files reg. (Inr (''a$$'' @ [newline] @ ''b''), reg(p \<mapsto> Some (exTid p))))\<rparr>"

subsection \<open>What a call may change\<close>

text \<open>
  Used in the proofs. \<open>sameStatic p p'\<close>: the fields of \<^verbatim>\<open>build.Package\<close> agree.
  \<open>framed ro s s'\<close>: from \<open>s\<close> to \<open>s'\<close> every cached descriptor is still cached with the
  same \<^verbatim>\<open>build.Package\<close> fields, no descriptor other than the one \<open>ro\<close> points to has
  changed, and the trace has only grown. \<open>frames build\<close>: a call of \<open>build\<close> on a
  descriptor changes, among the descriptors that exist, only that one.
\<close>

definition sameStatic :: "GopherPackage \<Rightarrow> GopherPackage \<Rightarrow> bool" where
  "sameStatic p p' =
     (Name p' = Name p \<and> ImportPath p' = ImportPath p \<and> Imports p' = Imports p \<and> Dir p' = Dir p
      \<and> GoFiles p' = GoFiles p \<and> PkgObj p' = PkgObj p \<and> BinDir p' = BinDir p)"

definition framed :: "ref option \<Rightarrow> Translator \<Rightarrow> Translator \<Rightarrow> bool" where
  "framed ro s s' =
     ((\<forall>k p. packages s k = Some p \<longrightarrow>
          (\<exists>p'. packages s' k = Some p' \<and> sameStatic p p' \<and> (ro \<noteq> Some (Cached k) \<longrightarrow> p' = p)))
      \<and> sameStatic (entry s) (entry s')
      \<and> (ro \<noteq> Some Entry \<longrightarrow> entry s' = entry s)
      \<and> (\<exists>evs. trace s' = trace s @ evs))"

definition frames :: "builder \<Rightarrow> bool" where
  "frames build = (\<forall>s r writeToDisk res s'. build s r writeToDisk = (res, s') \<longrightarrow> framed (Some r) s s')"

text \<open>
  Variations of the world. In \<open>exWorldReadOnly\<close> no artifact can be opened for writing.
  In \<open>exWorldStray\<close> the single file \<^verbatim>\<open>main.go\<close> has no import declaration that the
  parser reports, while the type interface of \<open>main\<close> names the package \<open>e\<close>, which no
  build has requested before the bundle is assembled.
\<close>

definition exMain :: GopherPackage where
  "exMain =
     \<lparr>Name = ''main'', ImportPath = ''main'', Imports = [''b'', ''c''], Dir = ''.'',
      GoFiles = [''main.go''], PkgObj = ''main.js'', BinDir = [],
      SrcLastModified = 0, JavaScriptCode = []\<rparr>"

definition exWorldReadOnly :: world where
  "exWorldReadOnly = exWorld\<lparr>os_OpenFile_err := (\<lambda>p. Some (Err ''permission denied''))\<rparr>"

definition exFailedGet :: "ref result \<times> Translator" where
  "exFailedGet = getPackage 5 exWorldReadOnly (newTranslator exMain exFiles) ''d'' ''.'' True"

definition exWorldStray :: world where
  "exWorldStray =
     exWorld\<lparr>parser_ParseFile := (\<lambda>f. if f = ''main.go'' then Inr [] else Inl (Err ''no such file'')),
             bc_Import := (\<lambda>p dir. if p = ''e'' then Inr (exPackage ''e'' [])
                                   else Inl (Err ''cannot find package'')),
             typesPkg := (\<lambda>t. if t = 0 then \<lparr>Path = ''main'', TypeImports = [4], ScopeNames = [''main'']\<rparr>
                               else \<lparr>Path = ''e'', TypeImports = [], ScopeNames = [''E'']\<rparr>)\<rparr>"

definition exStrayFiles :: "string \<rightharpoonup> osfile" where
  "exStrayFiles = [''gopherjs'' \<mapsto> exSource 10, ''./main.go'' \<mapsto> exSource 20, ''src/e/e.go'' \<mapsto> exSource 30]"

subsection \<open>Counting the builds of a run\<close>

text \<open>
  \<open>builtPaths\<close> and \<open>translatedPaths\<close>: the identities on which \<^verbatim>\<open>buildPackage\<close> and
  the translation collaborator were called, in order. \<open>canonical w\<close>: the build context
  resolves a key to a package whose import path is the key. \<open>onceEach X s\<close>: no
  identity was built or translated twice, every translated identity was built, and the
  built identities are the cached keys and those of \<open>X\<close> (the entry package).
  \<open>since s s'\<close>: the events added from \<open>s\<close> to \<open>s'\<close>.
\<close>

fun builtPaths :: "event list \<Rightarrow> string list" where
  "builtPaths [] = []"
| "builtPaths (EvBuild p # es) = p # builtPaths es"
| "builtPaths (EvTranslate p # es) = builtPaths es"

fun translatedPaths :: "event list \<Rightarrow> string list" where
  "translatedPaths [] = []"
| "translatedPaths (EvBuild p # es) = translatedPaths es"
| "translatedPaths (EvTranslate p # es) = p # translatedPaths es"

definition canonical :: "world \<Rightarrow> bool" where
  "canonical w = (\<forall>path dir p. bc_Import w path dir = Inr p \<longrightarrow> ImportPath p = path)"

definition onceEach :: "string set \<Rightarrow> Translator \<Rightarrow> bool" where
  "onceEach X s =
     (distinct (builtPaths (trace s)) \<and> distinct (translatedPaths (trace s))
      \<and> set (translatedPaths (trace s)) \<subseteq> set (builtPaths (trace s))
      \<and> set (builtPaths (trace s)) \<subseteq> dom (packages s) \<union> X
      \<and> (\<forall>k p. packages s k = Some p \<longrightarrow> ImportPath p = k))"

definition since :: "Translator \<Rightarrow> Translator \<Rightarrow> event list" where
  "since s s' = drop (length (trace s)) (trace s')"

definition keeps :: "string set \<Rightarrow> Translator \<Rightarrow> Translator \<Rightarrow> bool" where
  "keeps X s s' =
     (X \<inter> dom (packages s') = {} \<longrightarrow> onceEach X s \<longrightarrow>
        onceEach X s' \<and> set (translatedPaths (since s s')) \<subseteq> set (builtPaths (since s s')))"

definition once :: "string set \<Rightarrow> builder \<Rightarrow> bool" where
  "once X build =
     (\<forall>s r writeToDisk res s' pkg.
        build s r writeToDisk = (res, s') \<longrightarrow> deref s r = Some pkg \<longrightarrow>
        ImportPath pkg \<notin> set (builtPaths (trace s)) \<longrightarrow>
        ImportPath pkg \<in> dom (packages s) \<union> X \<longrightarrow> keeps X s s')"

text \<open>The run of \<^verbatim>\<open>gopherjs build main.go\<close> in the example world.\<close>

definition exDiamondRun :: "unit result \<times> Translator" where
  "exDiamondRun = buildPackage 10 exWorld (newTranslator exMain exFiles) Entry True"

subsection \<open>Freshness\<close>

text \<open>
  Used in the proofs. \<open>slmMono r s s'\<close>: the freshness timestamp of the descriptor \<open>r\<close>
  has not gone down from \<open>s\<close> to \<open>s'\<close>. \<open>fresh r s ps\<close>: in \<open>s\<close> every import of \<open>ps\<close> is
  cached with a freshness timestamp that is at most that of \<open>r\<close>.
\<close>

definition slmMono :: "ref \<Rightarrow> Translator \<Rightarrow> Translator \<Rightarrow> bool" where
  "slmMono r s s' =
     (\<forall>A. deref s r = Some A \<longrightarrow> (\<exists>A'. deref s' r = Some A' \<and> SrcLastModified A \<le> SrcLastModified A'))"

definition fresh :: "ref \<Rightarrow> Translator \<Rightarrow> string list \<Rightarrow> bool" where
  "fresh r s ps =
     (\<exists>A. deref s r = Some A
         \<and> (\<forall>p\<in>set ps. \<exists>B. packages s p = Some B \<and> SrcLastModified B \<le> SrcLastModified A))"

text \<open>
  The same build again, in a new run on the files that \<open>exDiamondRun\<close> left, after the
  source of \<open>d\<close> has been touched.
\<close>

definition exBumpedRun :: "unit result \<times> Translator" where
  "exBumpedRun =
     buildPackage 10 exWorld
       (newTranslator exMain ((fs (snd exDiamondRun))(''src/d/d.go'' \<mapsto> exSource 200))) Entry True"

subsection \<open>Which files a call writes\<close>

text \<open>
  Used in the proofs. \<open>quiet w s s'\<close>: every file that differs between \<open>s\<close> and \<open>s'\<close> is
  the artifact of a package imported under a key that was first requested in between.
  \<open>complete w s r\<close>: the artifact of \<open>r\<close> holds its header and the whole payload of the
  descriptor. \<open>writesOwn w build\<close>: a call of \<open>build\<close> changes, besides such files, at
  most the artifact of its own package, and that only when it succeeds with
  \<open>writeToDisk\<close> set, leaving it complete.
\<close>

definition quiet :: "world \<Rightarrow> Translator \<Rightarrow> Translator \<Rightarrow> bool" where
  "quiet w s s' =
     (\<forall>path. fs s' path \<noteq> fs s path \<longrightarrow>
        (\<exists>k dir p. packages s k = None \<and> packages s' k \<noteq> None
                  \<and> bc_Import w k dir = Inr p \<and> PkgObj p = path))"

definition complete :: "world \<Rightarrow> Translator \<Rightarrow> ref \<Rightarrow> bool" where
  "complete w s r =
     (\<exists>f pkg. deref s r = Some pkg \<and> fs s (PkgObj pkg) = Some f
         \<and> contents f =
              (if IsCommand pkg then shebang
               else gcexporter_Write w (regLookup (typesPackages s) (ImportPath pkg)))
              @ JavaScriptCode pkg)"

definition writesOwn :: "world \<Rightarrow> builder \<Rightarrow> bool" where
  "writesOwn w build =
     (\<forall>s r writeToDisk res s' pkg.
        build s r writeToDisk = (res, s') \<longrightarrow> deref s r = Some pkg \<longrightarrow>
        quiet w s s'
        \<or> (res = Ok () \<and> writeToDisk \<and> complete w s' r
            \<and> quiet w s (s'\<lparr>fs := (fs s')(PkgObj pkg := fs s (PkgObj pkg))\<rparr>)))"

text \<open>The world in which the translation of \<open>b\<close> reports a diagnostic, and the build of main in it.\<close>

definition exWorldBroken :: world where
  "exWorldBroken =
     exWorld\<lparr>translatePackage :=
       (\<lambda>p dir files reg. if p = ''b'' then (Inl (ErrList [''b.go:1:1: expected declaration'']), reg)
                           else (Inr (''code of '' @ p @ '';''), reg(p \<mapsto> Some (exTid p))))\<rparr>"

definition exBrokenRun :: "unit result \<times> Translator" where
  "exBrokenRun = buildPackage 10 exWorldBroken (newTranslator exMain exFiles) Entry True"

subsection \<open>The shape of a bundle\<close>

text \<open>
  Used to state what \<^verbatim>\<open>loadImportsOf\<close> appends. A bundle is described by the list of its
  blocks, each the pointer of the imported package and the payload wrapped:
  \<open>blockText\<close> is the text of the blocks; \<open>shape\<close> says that \<open>jsCode\<close> has grown by the
  blocks \<open>bs\<close>, one per package, none loaded before, and that \<open>loaded\<close> has grown by
  their packages. \<open>ordered w E bs\<close>: each block comes after the blocks of all imports of
  its package that are not excluded, where the packages of \<open>E\<close> count as emitted before.
  \<open>ranked w rank\<close>: the import graph of the type interfaces has no cycle, every import
  has a smaller rank than its importer.
\<close>

definition blockText :: "world \<Rightarrow> (tid \<times> string) list \<Rightarrow> string" where
  "blockText w bs = concat (map (\<lambda>(imp, code). moduleBlock w (typesPkg w imp) code) bs)"

definition shape :: "world \<Rightarrow> tid set \<Rightarrow> string \<Rightarrow> (tid \<times> string) list \<Rightarrow> tid set \<Rightarrow> string \<Rightarrow> bool" where
  "shape w loaded jsCode bs loaded' jsCode' =
     (jsCode' = jsCode @ blockText w bs
      \<and> loaded' = loaded \<union> set (map fst bs)
      \<and> set (map fst bs) \<inter> loaded = {}
      \<and> distinct (map fst bs)
      \<and> (\<forall>imp\<in>set (map fst bs). \<not> excluded (Path (typesPkg w imp))))"

fun ordered :: "world \<Rightarrow> tid set \<Rightarrow> (tid \<times> string) list \<Rightarrow> bool" where
  "ordered w E [] = True"
| "ordered w E ((imp, code) # bs) =
     ((\<forall>dep\<in>set (TypeImports (typesPkg w imp)). excluded (Path (typesPkg w dep)) \<or> dep \<in> E)
      \<and> ordered w (insert imp E) bs)"

definition covered :: "world \<Rightarrow> tid set \<Rightarrow> tid list \<Rightarrow> bool" where
  "covered w E imps = (\<forall>imp\<in>set imps. excluded (Path (typesPkg w imp)) \<or> imp \<in> E)"

definition ranked :: "world \<Rightarrow> (tid \<Rightarrow> nat) \<Rightarrow> bool" where
  "ranked w rank = (\<forall>t dep. dep \<in> set (TypeImports (typesPkg w t)) \<longrightarrow> rank dep < rank t)"

definition inOrder :: "world \<Rightarrow> (tid \<Rightarrow> nat) \<Rightarrow> nat \<Rightarrow> tid set \<Rightarrow> tid set \<Rightarrow> tid list \<Rightarrow> (tid \<times> string) list \<Rightarrow> bool" where
  "inOrder w rank bound loaded E imps bs =
     (ranked w rank \<and> E \<subseteq> loaded \<and> (\<forall>x\<in>loaded - E. bound \<le> rank x) \<and> (\<forall>imp\<in>set imps. rank imp < bound)
      \<longrightarrow> ordered w E bs \<and> covered w (E \<union> set (map fst bs)) imps)"

text \<open>
  A program that imports \<open>reflect\<close>, which imports \<open>strconv\<close>: the build context and the
  type interfaces agree on it.
\<close>

definition exWorldReflect :: world where
  "exWorldReflect =
     exWorld\<lparr>bc_Import := (\<lambda>p dir. if p = ''reflect'' then Inr (exPackage ''reflect'' [''strconv''])
                                   else if p = ''strconv'' then Inr (exPackage ''strconv'' [])
                                   else Inl (Err ''cannot find package'')),
             translatePackage := (\<lambda>p dir files reg.
                (Inr (''code of '' @ p @ '';''),
                 reg(p \<mapsto> Some (if p = ''main'' then 0 else if p = ''reflect'' then 1 else 2)))),
             typesPkg := (\<lambda>t. if t = 0 then \<lparr>Path = ''main'', TypeImports = [1], ScopeNames = [''main'']\<rparr>
                               else if t = 1 then \<lparr>Path = ''reflect'', TypeImports = [2], ScopeNames = [''TypeOf'']\<rparr>
                               else \<lparr>Path = ''strconv'', TypeImports = [], ScopeNames = [''Itoa'']\<rparr>)\<rparr>"

definition exReflectRun :: "unit result \<times> Translator" where
  "exReflectRun =
     buildPackage 10 exWorldReflect
       (newTranslator (exMain\<lparr>Imports := [''reflect'']\<rparr>)
          [''gopherjs'' \<mapsto> exSource 10, ''./main.go'' \<mapsto> exSource 20,
           ''src/reflect/reflect.go'' \<mapsto> exSource 30, ''src/strconv/strconv.go'' \<mapsto> exSource 5])
       Entry True"

definition exRank :: "tid \<Rightarrow> nat" where
  "exRank t = (if t = 0 then 3 else if t = 1 \<or> t = 2 then 2 else if t = 3 then 1 else 0)"

text \<open>
  The bundle of the example executable, assembled where nothing is cached yet: every
  dependency is requested by \<^verbatim>\<open>loadImportsOf\<close>.
\<close>

definition exBundle :: "unit result \<times> Translator" where
  "exBundle = compilePackage 9 (buildPackage 9 exWorld) exWorld (newTranslator exMain exFiles) Entry exMain True"

section \<open>Verification\<close>

subsection \<open>The scan for the sentinel line\<close>

declare file_Read3.simps [simp del]

lemma drop3: "k + 3 \<le> length c \<Longrightarrow> drop k c = c ! k # c ! Suc k # c ! Suc (Suc k) # drop (k + 3) c"
proof -
  assume len: "k + 3 \<le> length c"
  have "drop k c = c ! k # drop (Suc k) c"
    using len by (simp add: Cons_nth_drop_Suc)
  also have "drop (Suc k) c = c ! Suc k # drop (Suc (Suc k)) c"
    using len by (simp add: Cons_nth_drop_Suc)
  also have "drop (Suc (Suc k)) c = c ! Suc (Suc k) # drop (Suc (Suc (Suc k))) c"
    using len by (simp add: Cons_nth_drop_Suc)
  also have "Suc (Suc (Suc k)) = k + 3" by simp
  finally show ?thesis .
qed

lemma read3_full:
  "k + 3 \<le> length c \<Longrightarrow> file_Read3 c k buf = (window c k, k + 3, False)"
  by (cases buf) (simp add: file_Read3.simps drop3 window_def)

lemma occursAt_nth:
  "k + 3 \<le> length c \<Longrightarrow> occursAt c k = (window c k = (CHR ''$'', CHR ''$'', newline))"
  by (auto simp: occursAt_def sentinel_def drop3 window_def)

lemma occursAt_length: "occursAt c k \<Longrightarrow> k + 3 \<le> length c"
proof -
  assume "occursAt c k"
  then have "length (take 3 (drop k c)) = 3"
    by (simp add: occursAt_def sentinel_def)
  then show ?thesis by simp
qed

lemma searchBackwards_match:
  "searchBackwards c pos (CHR ''$'', CHR ''$'', newline) = Found pos"
  by (subst searchBackwards.simps) simp

lemma searchBackwards_start:
  "buf \<noteq> (CHR ''$'', CHR ''$'', newline) \<Longrightarrow> pos < 4 \<Longrightarrow> searchBackwards c pos buf = ReachedStart"
  by (subst searchBackwards.simps) simp

lemma searchBackwards_step:
  assumes "buf \<noteq> (CHR ''$'', CHR ''$'', newline)" and "k + 3 \<le> length c"
  shows "searchBackwards c (k + 4) buf = searchBackwards c (k + 3) (window c k)"
  using assms by (subst searchBackwards.simps) (simp add: read3_full)

lemma searchBackwards_window:
  "k + 3 \<le> length c \<Longrightarrow> searchBackwards c (k + 3) (window c k) = scanSpec c k"
proof (induction k)
  case 0
  show ?case
  proof (cases "occursAt c 0")
    case True
    with 0 show ?thesis
      using searchBackwards_match [of c 3] by (simp add: occursAt_nth)
  next
    case False
    with 0 have "window c 0 \<noteq> (CHR ''$'', CHR ''$'', newline)"
      by (simp add: occursAt_nth)
    then have "searchBackwards c 3 (window c 0) = ReachedStart"
      by (rule searchBackwards_start) simp
    with False show ?thesis by simp
  qed
next
  case (Suc k)
  from Suc.prems have len: "k + 3 \<le> length c" by simp
  have e: "Suc k + 3 = k + 4" by simp
  show ?case
  proof (cases "occursAt c (Suc k)")
    case True
    with Suc.prems have "window c (Suc k) = (CHR ''$'', CHR ''$'', newline)"
      by (simp add: occursAt_nth)
    with True show ?thesis
      using searchBackwards_match [of c "Suc k + 3"] by simp
  next
    case False
    with Suc.prems have ne: "window c (Suc k) \<noteq> (CHR ''$'', CHR ''$'', newline)"
      by (simp add: occursAt_nth)
    have "searchBackwards c (Suc k + 3) (window c (Suc k)) = searchBackwards c (k + 4) (window c (Suc k))"
      by (simp only: e)
    also have "\<dots> = searchBackwards c (k + 3) (window c k)"
      using ne len by (rule searchBackwards_step)
    also have "\<dots> = scanSpec c k"
      by (rule Suc.IH [OF len])
    finally show ?thesis
      using False by simp
  qed
qed

lemma scanSpec_found:
  "occursAt c m \<Longrightarrow> m \<le> k \<Longrightarrow> (\<forall>j. m < j \<and> j \<le> k \<longrightarrow> \<not> occursAt c j) \<Longrightarrow> scanSpec c k = Found (m + 3)"
proof (induction k)
  case 0
  then show ?case by simp
next
  case (Suc k)
  show ?case
  proof (cases "m = Suc k")
    case True
    with Suc.prems show ?thesis by simp
  next
    case False
    with Suc.prems have "m \<le> k" by simp
    moreover from Suc.prems False have "\<not> occursAt c (Suc k)" by simp
    ultimately show ?thesis using Suc by simp
  qed
qed

lemma scanSpec_none:
  "(\<forall>j \<le> k. \<not> occursAt c j) \<Longrightarrow> scanSpec c k = ReachedStart"
  by (induction k) simp_all

lemma scanSpec_Found_sound:
  "scanSpec c k = Found p \<Longrightarrow> \<exists>j \<le> k. p = j + 3 \<and> occursAt c j"
proof (induction k)
  case 0
  then show ?case by (auto split: if_splits)
next
  case (Suc k)
  then show ?case
    by (cases "occursAt c (Suc k)") (auto intro: le_SucI)
qed

lemma scanSpec_not_error: "scanSpec c k \<noteq> ReadError"
  by (induction k) simp_all

text \<open>The first read and the scan, by the number of bytes left at the offset.\<close>

lemma readPayload_full:
  assumes "off + 3 \<le> length c"
  shows "readPayload c off =
           (case scanSpec c off of Found p \<Rightarrow> Some (Inr (drop p c)) | ReachedStart \<Rightarrow> None
            | ReadError \<Rightarrow> Some (Inl (Err ''EOF'')))"
  using assms by (simp add: readPayload_def read3_full searchBackwards_window min_def)

lemma partial_buf_scan:
  assumes "b2 \<noteq> newline"
  shows "searchBackwards c pos (b0, b1, b2) =
           (if pos < 4 then ReachedStart
            else case file_Read3 c (pos - 4) (b0, b1, b2) of
              (buf', pos', eof) \<Rightarrow> if eof then ReadError else searchBackwards c pos' buf')"
  using assms by (subst searchBackwards.simps) simp

lemma read3_short:
  assumes "q \<le> length c" and "length c < q + 3"
  shows "\<exists>b0 b1. file_Read3 c q (z0, z1, z2) = ((b0, b1, z2), length c, length c = q)"
proof -
  have "length (drop q c) < 3" using assms by simp
  then consider "drop q c = []" | x where "drop q c = [x]" | x y where "drop q c = [x, y]"
    by (cases "drop q c"; cases "tl (drop q c)"; cases "tl (tl (drop q c))") auto
  then show ?thesis
  proof cases
    case 1
    then have "length c = q" using assms by simp
    with 1 show ?thesis by (simp add: file_Read3.simps)
  next
    case 2
    then have "length (drop q c) = 1" by simp
    then have "length c = q + 1" by simp
    with 2 show ?thesis by (simp add: file_Read3.simps)
  next
    case 3
    then have "length (drop q c) = 2" by simp
    then have "length c = q + 2" by simp
    with 3 show ?thesis by (simp add: file_Read3.simps)
  qed
qed

lemma readPayload_short:
  assumes "length c < off + 3"
  shows "readPayload c off =
           (if length c < 4 then None
            else case scanSpec c (length c - 4) of Found p \<Rightarrow> Some (Inr (drop p c)) | ReachedStart \<Rightarrow> None
            | ReadError \<Rightarrow> Some (Inl (Err ''EOF'')))"
proof -
  define q where "q = min off (length c)"
  have q: "q \<le> length c" "length c < q + 3" using assms by (auto simp: q_def)
  obtain b0 b1 where rd: "file_Read3 c q (CHR 0x00, CHR 0x00, CHR 0x00) = ((b0, b1, CHR 0x00), length c, length c = q)"
    using read3_short [OF q] by blast
  have nz: "(b0, b1, CHR 0x00) \<noteq> (CHR ''$'', CHR ''$'', newline)" by (simp add: newline_def)
  show ?thesis
  proof (cases "length c < 4")
    case True
    with nz have "searchBackwards c (length c) (b0, b1, CHR 0x00) = ReachedStart"
      by (simp add: searchBackwards_start)
    with True show ?thesis
      using rd by (simp add: readPayload_def q_def [symmetric])
  next
    case False
    then have len: "(length c - 4) + 3 \<le> length c" and e: "length c = (length c - 4) + 4" by simp_all
    have "searchBackwards c (length c) (b0, b1, CHR 0x00)
            = searchBackwards c ((length c - 4) + 4) (b0, b1, CHR 0x00)"
      using e by simp
    also have "\<dots> = searchBackwards c ((length c - 4) + 3) (window c (length c - 4))"
      using nz len by (rule searchBackwards_step)
    also have "\<dots> = scanSpec c (length c - 4)"
      using len by (rule searchBackwards_window)
    finally show ?thesis
      using False rd by (simp add: readPayload_def q_def [symmetric])
  qed
qed


lemma hasSentinel_occursAt: "occursAt p k \<Longrightarrow> hasSentinel p"
proof (induction p arbitrary: k)
  case Nil
  then show ?case by (simp add: occursAt_def sentinel_def)
next
  case (Cons x xs)
  show ?case
  proof (cases k)
    case 0
    with Cons.prems show ?thesis by (simp add: occursAt_def)
  next
    case (Suc j)
    with Cons.prems have "occursAt xs j" by (simp add: occursAt_def)
    then show ?thesis using Cons.IH by simp
  qed
qed

lemma occursAt_hasSentinel: "hasSentinel p \<Longrightarrow> \<exists>k. occursAt p k"
proof (induction p)
  case Nil
  then show ?case by simp
next
  case (Cons x xs)
  from Cons.prems consider "take 3 (x # xs) = sentinel" | "hasSentinel xs" by auto
  then show ?case
  proof cases
    case 1
    then have "occursAt (x # xs) 0" by (simp add: occursAt_def)
    then show ?thesis ..
  next
    case 2
    then obtain k where "occursAt xs k" using Cons.IH by blast
    then have "occursAt (x # xs) (Suc k)" by (simp add: occursAt_def)
    then show ?thesis ..
  qed
qed

lemma occursAt_artifact: "occursAt (meta @ sentinel @ payload) (length meta)"
  by (simp add: occursAt_def sentinel_def)

lemma occursAt_after:
  assumes "occursAt (meta @ sentinel @ payload) j" and "length meta < j"
  shows "hasSentinel payload"
proof -
  let ?m = "length meta"
  consider "j = ?m + 1" | "j = ?m + 2" | "?m + 3 \<le> j" using assms(2) by linarith
  then show ?thesis
  proof cases
    case 1
    with assms(1) show ?thesis
      by (simp add: occursAt_def sentinel_def newline_def)
  next
    case 2
    with assms(1) show ?thesis
      by (simp add: occursAt_def sentinel_def newline_def)
  next
    case 3
    then obtain d where d: "j = ?m + 3 + d"
      using le_Suc_ex by blast
    have "drop j (meta @ sentinel @ payload) = drop (j - ?m - 3) payload"
      unfolding d by (simp add: sentinel_def numeral_3_eq_3)
    moreover from assms(1) have "take 3 (drop j (meta @ sentinel @ payload)) = sentinel"
      by (simp only: occursAt_def)
    ultimately have "occursAt payload (j - ?m - 3)"
      by (simp only: occursAt_def)
    then show ?thesis by (rule hasSentinel_occursAt)
  qed
qed

lemma scan_artifact:
  assumes "\<not> hasSentinel payload" and "length meta \<le> k"
  shows "scanSpec (meta @ sentinel @ payload) k = Found (length meta + 3)"
proof (rule scanSpec_found)
  show "occursAt (meta @ sentinel @ payload) (length meta)" by (rule occursAt_artifact)
  show "length meta \<le> k" by fact
  show "\<forall>j. length meta < j \<and> j \<le> k \<longrightarrow> \<not> occursAt (meta @ sentinel @ payload) j"
    using assms(1) occursAt_after by blast
qed

lemma readPayload_roundtrip:
  assumes "\<not> hasSentinel payload" and "payload \<noteq> []" and "length meta + 3 \<le> off"
  shows "readPayload (meta @ sentinel @ payload) off = Some (Inr payload)"
proof -
  let ?c = "meta @ sentinel @ payload"
  have len: "length ?c = length meta + 3 + length payload" by (simp add: sentinel_def)
  have dr: "drop (length meta + 3) ?c = payload" by (simp add: sentinel_def)
  show ?thesis
  proof (cases "off + 3 \<le> length ?c")
    case True
    have "scanSpec ?c off = Found (length meta + 3)"
      using assms by (intro scan_artifact) simp_all
    with True dr show ?thesis
      by (simp only: readPayload_full scan.case)
  next
    case False
    then have short: "length ?c < off + 3" by simp
    from assms(2) have "0 < length payload" by simp
    with len have four: "\<not> length ?c < 4" and le: "length meta \<le> length ?c - 4" by linarith+
    have "scanSpec ?c (length ?c - 4) = Found (length meta + 3)"
      using assms(1) le by (rule scan_artifact)
    with four dr show ?thesis
      by (simp only: readPayload_short [OF short] scan.case if_False)
  qed
qed

lemma readPayload_no_sentinel:
  assumes "\<not> hasSentinel c"
  shows "readPayload c off = None"
proof -
  have none: "scanSpec c k = ReachedStart" for k
    using assms hasSentinel_occursAt by (intro scanSpec_none) blast
  show ?thesis
  proof (cases "off + 3 \<le> length c")
    case True
    then show ?thesis by (simp add: readPayload_full none)
  next
    case False
    then have "length c < off + 3" by simp
    then show ?thesis by (simp add: readPayload_short none)
  qed
qed

lemma readPayload_sound:
  assumes "readPayload c off = Some res"
  shows "\<exists>k. res = Inr (drop (k + 3) c) \<and> take 3 (drop k c) = sentinel"
proof -
  have found: "\<exists>j. res = Inr (drop (j + 3) c) \<and> occursAt c j"
    if "(case scanSpec c k of Found p \<Rightarrow> Some (Inr (drop p c)) | ReachedStart \<Rightarrow> None
            | ReadError \<Rightarrow> Some (Inl (Err ''EOF''))) = Some res" for k
  proof (cases "scanSpec c k")
    case (Found p)
    then obtain j where "p = j + 3" "occursAt c j"
      using scanSpec_Found_sound by blast
    with that Found show ?thesis by auto
  next
    case ReachedStart
    with that show ?thesis by simp
  next
    case ReadError
    then show ?thesis using scanSpec_not_error by blast
  qed
  show ?thesis
  proof (cases "off + 3 \<le> length c")
    case True
    with assms found show ?thesis
      by (simp add: readPayload_full occursAt_def)
  next
    case False
    then have "length c < off + 3" by simp
    with assms found [of "length c - 4"] show ?thesis
      by (simp add: readPayload_short occursAt_def split: if_splits)
  qed
qed

lemma occursAt_in_meta:
  assumes "occursAt (meta @ sentinel) j" and "j < length meta"
  shows "hasSentinel meta"
proof -
  let ?c = "meta @ sentinel"
  from assms(1) have len: "j + 3 \<le> length ?c" by (rule occursAt_length)
  from assms(1) len have w: "?c ! j = CHR ''$''" "?c ! Suc j = CHR ''$''" "?c ! Suc (Suc j) = newline"
    by (simp_all add: occursAt_nth window_def)
  show ?thesis
  proof (cases "j + 3 \<le> length meta")
    case True
    then have "take 3 (drop j ?c) = take 3 (drop j meta)" by simp
    with assms(1) have "occursAt meta j" by (simp add: occursAt_def)
    then show ?thesis by (rule hasSentinel_occursAt)
  next
    case False
    with assms(2) consider "Suc (Suc j) = length meta" | "Suc (Suc j) = length meta + 1" by linarith
    then have "?c ! Suc (Suc j) = CHR ''$''"
      by cases (simp_all add: nth_append sentinel_def)
    with w(3) show ?thesis by (simp add: newline_def)
  qed
qed

lemma readPayload_empty_payload:
  assumes "\<not> hasSentinel meta" and "length meta + 3 \<le> off"
  shows "readPayload (meta @ sentinel) off = None"
proof -
  let ?c = "meta @ sentinel"
  have len: "length ?c = length meta + 3" by (simp add: sentinel_def)
  with assms(2) have short: "length ?c < off + 3" by simp
  show ?thesis
  proof (cases "length ?c < 4")
    case True
    then show ?thesis by (simp only: readPayload_short [OF short] if_True)
  next
    case False
    have "scanSpec ?c (length ?c - 4) = ReachedStart"
    proof (rule scanSpec_none, intro allI impI)
      fix j assume "j \<le> length ?c - 4"
      with len False have "j < length meta" by linarith
      then show "\<not> occursAt ?c j" using assms(1) occursAt_in_meta by blast
    qed
    with False show ?thesis by (simp only: readPayload_short [OF short] if_False scan.case)
  qed
qed

subsection \<open>Pointers into the state\<close>

lemma deref_modify_same [simp]: "deref (modify r f s) r = map_option f (deref s r)"
  by (cases r) (simp_all add: deref_def modify_def)

lemma deref_other_fields [simp]:
  "deref (typesPackages_update g s) r = deref s r"
  "deref (trace_update h s) r = deref s r"
  "deref (fs_update k s) r = deref s r"
  by (cases r; simp add: deref_def)+

lemma modify_fields [simp]:
  "fs (modify r f s) = fs s" "trace (modify r f s) = trace s" "typesPackages (modify r f s) = typesPackages s"
  by (cases r; simp add: modify_def)+

subsection \<open>The cache-hit path\<close>

lemma loadFromDisk_library:
  assumes "\<not> IsCommand pkg" and "fs s (PkgObj pkg) = Some objFile"
    and "GcImportData w (typesPackages s) (PkgObj pkg) (ImportPath pkg) (contents objFile) = (Inr tp, reg, off)"
  shows "loadFromDisk w s r pkg =
           (case readPayload (contents objFile) off of
              None \<Rightarrow> (Ok (), s\<lparr>typesPackages := reg(ImportPath pkg \<mapsto> Some tp)\<rparr>)
            | Some (Inl e) \<Rightarrow> (Fail e, s\<lparr>typesPackages := reg(ImportPath pkg \<mapsto> Some tp)\<rparr>)
            | Some (Inr code) \<Rightarrow>
                (Ok (), modify r (JavaScriptCode_update (\<lambda>_. code))
                          (s\<lparr>typesPackages := reg(ImportPath pkg \<mapsto> Some tp)\<rparr>)))"
  using assms by (simp add: loadFromDisk_def)


text \<open>
  C4, as amended. When the artifact of a library exists, is newer than the freshness
  timestamp and \<open>writeToDisk\<close> is set, the build does not call the translation
  collaborator and does not touch the file system; the payload it loads is the persisted
  one when that payload is not empty and holds no sentinel line, and the metadata reader
  has read at least to the end of the sentinel line.
\<close>

theorem cache_hit_loads_payload:
  assumes "deref s r = Some pkg" and "\<not> IsCommand pkg"
    and "fs s (PkgObj pkg) = Some objFile" and "SrcLastModified pkg < ModTime objFile"
    and "contents objFile = gcexporter_Write w t0 @ payload"
    and "GcImportData w (typesPackages s) (PkgObj pkg) (ImportPath pkg) (contents objFile) = (Inr tp, reg, off)"
    and "length (gcexporter_Write w t0) \<le> off"
    and "payload \<noteq> []" and "\<not> hasSentinel payload"
  shows "\<exists>s'. finishBuild n build w s r True = (Ok (), s')
              \<and> trace s' = trace s \<and> fs s' = fs s
              \<and> map_option JavaScriptCode (deref s' r) = Some payload"
proof -
  have up: "upToDate s pkg True"
    using assms(3,4) by (simp add: upToDate_def)
  have c: "contents objFile = exportData w t0 @ sentinel @ payload"
    using assms(5) by (simp add: gcexporter_Write_def)
  have "length (exportData w t0) + 3 \<le> off"
    using assms(7) by (simp add: gcexporter_Write_def sentinel_def)
  with c assms(8,9) have "readPayload (contents objFile) off = Some (Inr payload)"
    by (simp add: readPayload_roundtrip)
  then show ?thesis
    using assms(1,2,3,6) up by (simp add: finishBuild_def loadFromDisk_library)
qed


lemma exLibState_facts:
  "\<not> IsCommand exLibrary"
  "deref (exLibState c) Entry = Some exLibrary"
  "fs (exLibState c) (PkgObj exLibrary) = Some (exArtifact c)"
  "GcImportData exWorld (typesPackages (exLibState c)) (PkgObj exLibrary) (ImportPath exLibrary)
       (contents (exArtifact c)) = (Inr 3, [''d'' \<mapsto> Some 3], length c)"
  "SrcLastModified exLibrary < ModTime (exArtifact c)"
  by (simp_all add: IsCommand_def exLibrary_def newGopherPackage_def exPackage_def exLibState_def
        newTranslator_def deref_def exArtifact_def exWorld_def exTid_def)


theorem cache_hit_loads_payload_witness:
  "map_option contents (fs (exFirstBuild exWorld) ''pkg/d.a'') = Some (gcexporter_Write exWorld (Some 3) @ ''code of d;'')
   \<and> (\<exists>s'. finishBuild 4 (buildPackage 4 exWorld) exWorld
               (exLibState (gcexporter_Write exWorld (Some 3) @ ''code of d;'')) Entry True = (Ok (), s')
            \<and> trace s' = [] \<and> fs s' = fs (exLibState (gcexporter_Write exWorld (Some 3) @ ''code of d;''))
            \<and> map_option JavaScriptCode (deref s' Entry) = Some ''code of d;'')"
proof -
  have w: "map_option contents (fs (exFirstBuild exWorld) ''pkg/d.a'') = Some (gcexporter_Write exWorld (Some 3) @ ''code of d;'')"
    by code_simp
  have h: "''code of d;'' \<noteq> []" "\<not> hasSentinel ''code of d;''"
    by (simp_all add: sentinel_def newline_def)
  have c: "contents (exArtifact (gcexporter_Write exWorld (Some 3) @ ''code of d;'')) = gcexporter_Write exWorld (Some 3) @ ''code of d;''"
    by (simp add: exArtifact_def)
  have l: "length (gcexporter_Write exWorld (Some 3)) \<le> length (gcexporter_Write exWorld (Some 3) @ ''code of d;'')"
    by simp
  have tr: "trace (exLibState c) = []" for c
    by (simp add: exLibState_def newTranslator_def)
  from cache_hit_loads_payload [OF exLibState_facts(2,1,3,5) c exLibState_facts(4) l h, of 4 "buildPackage 4 exWorld"] w
  show ?thesis by (simp add: tr)
qed

text \<open>
  C4 as stated fails: a payload with a sentinel line of its own is cut at that line. The
  first build translates \<open>d\<close> and persists the payload after the metadata; the rebuild
  finds the artifact up to date, does not translate, and loads only the bytes after the
  last \<^verbatim>\<open>$$\<close> line.
\<close>

theorem cache_roundtrip_counterexample:
  "JavaScriptCode (entry (exFirstBuild exWorldSentinel)) = ''a$$'' @ [newline] @ ''b''
   \<and> map_option contents (fs (exFirstBuild exWorldSentinel) ''pkg/d.a'')
        = Some (''meta'' @ sentinel @ ''a$$'' @ [newline] @ ''b'')
   \<and> trace (exRebuild exWorldSentinel) = [EvBuild ''d'']
   \<and> JavaScriptCode (entry (exRebuild exWorldSentinel)) = ''b''"
  by code_simp

subsection \<open>The artifact path of a single-file build\<close>

text \<open>
  C10. For \<^verbatim>\<open>build\<close> and \<^verbatim>\<open>run\<close>, once the file has been parsed and its import literals
  sliced, the artifact path is the base name without its last three bytes, followed by
  \<^verbatim>\<open>.js\<close>; when the base name has fewer than three bytes the slice expression panics and
  nothing is built.
\<close>

theorem entry_artifact_path:
  assumes "cmd = ''build'' \<or> cmd = ''run''"
    and "parser_ParseFile w filename = Inr literals"
    and "\<not> list_ex (\<lambda>v. length v < 2) literals"
  shows "(length (path_Base filename) < 3 \<longrightarrow>
            entryPackage w cmd filename = Panicked ''slice bounds out of range (basename)''
            \<and> main n w files cmd filename = None)
       \<and> (3 \<le> length (path_Base filename) \<longrightarrow>
            (\<exists>pkg. entryPackage w cmd filename = Proceed pkg
                 \<and> PkgObj pkg = take (length (path_Base filename) - 3) (path_Base filename) @ ''.js''))"
proof -
  from assms(1) have ni: "cmd \<noteq> ''install''" by auto
  show ?thesis
    using assms ni by (auto simp: entryPackage_def main_def Let_def)
qed

theorem entry_artifact_path_witness:
  "length (path_Base ''a'') < 3
   \<and> entryPackage exWorld ''build'' ''a'' = Panicked ''slice bounds out of range (basename)''
   \<and> main 10 exWorld exFiles ''build'' ''a'' = None
   \<and> 3 \<le> length (path_Base ''main.go'')
   \<and> (\<exists>pkg. entryPackage exWorld ''run'' ''main.go'' = Proceed pkg \<and> PkgObj pkg = ''main.js'')"
proof -
  have p: "parser_ParseFile exWorld ''a'' = Inr [[CHR 0x22] @ ''b'' @ [CHR 0x22], [CHR 0x22] @ ''c'' @ [CHR 0x22]]"
          "parser_ParseFile exWorld ''main.go'' = Inr [[CHR 0x22] @ ''b'' @ [CHR 0x22], [CHR 0x22] @ ''c'' @ [CHR 0x22]]"
    by (simp_all add: exWorld_def)
  have l: "\<not> list_ex (\<lambda>v. length v < 2) [[CHR 0x22] @ ''b'' @ [CHR 0x22], [CHR 0x22] @ ''c'' @ [CHR 0x22]]"
    by simp
  have b: "path_Base ''a'' = ''a''" "path_Base ''main.go'' = ''main.go''"
    by (simp_all add: path_Base_def stripTrailingSlashes.simps)
  from entry_artifact_path [OF _ p(1) l, of "''build''" 10 exFiles]
       entry_artifact_path [OF _ p(2) l, of "''run''" 10 exFiles] b
  show ?thesis by simp
qed

subsection \<open>The exports of a module block\<close>

lemma exportsLoop_filter:
  "exportsLoop w exports names
     = exports @ map (\<lambda>name. name @ '': '' @ name) (filter (ast_IsExported w) names)"
  by (induction names arbitrary: exports) simp_all

subsection \<open>Frame lemmas\<close>

lemma sameStatic_refl [simp]: "sameStatic p p"
  by (simp add: sameStatic_def)

lemma sameStatic_trans: "sameStatic p p' \<Longrightarrow> sameStatic p' p'' \<Longrightarrow> sameStatic p p''"
  by (simp add: sameStatic_def)

lemma sameStatic_updates [simp]:
  "sameStatic p (SrcLastModified_update f p)" "sameStatic p (JavaScriptCode_update g p)"
  by (simp_all add: sameStatic_def)

lemma framed_refl [simp]: "framed ro s s"
  by (simp add: framed_def)

lemma framed_trans: "framed ro s s' \<Longrightarrow> framed ro s' s'' \<Longrightarrow> framed ro s s''"
  unfolding framed_def
  apply (intro conjI allI impI)
     apply (metis sameStatic_trans)
    apply (metis sameStatic_trans)
   apply metis
  apply (metis append.assoc)
  done

lemma framed_weaken: "framed None s s' \<Longrightarrow> framed ro s s'"
  by (auto simp: framed_def)

lemma framed_modify: "(\<And>p. sameStatic p (f p)) \<Longrightarrow> framed (Some r) s (modify r f s)"
  by (cases r) (auto simp: framed_def modify_def)

lemma framed_fields [simp]:
  "framed ro s (typesPackages_update g s)"
  "framed ro s (fs_update h s)"
  "framed ro s (s\<lparr>trace := trace s @ evs\<rparr>)"
  by (simp_all add: framed_def)

lemma framed_fields2 [simp]:
  "framed ro s (s\<lparr>typesPackages := reg, trace := trace s @ evs\<rparr>)"
  by (simp add: framed_def)

lemma framed_new_descriptor:
  assumes "packages s key = None"
    and "framed (Some (Cached key)) (s\<lparr>packages := (packages s)(key \<mapsto> p)\<rparr>) s'"
  shows "framed None s s'"
  using assms unfolding framed_def
  by (auto split: if_splits) (metis option.distinct(1))+


lemma framesD: "frames build \<Longrightarrow> build s r wd = (res, s') \<Longrightarrow> framed (Some r) s s'"
  by (auto simp: frames_def)

lemma getPackageWith_framed:
  assumes "frames build" and "getPackageWith build w s key dir wd = (res, s')"
  shows "framed None s s'"
proof (cases "packages s key")
  case (Some p)
  with assms(2) show ?thesis by (simp add: getPackageWith_def)
next
  case None
  show ?thesis
  proof (cases "bc_Import w key dir")
    case (Inl e)
    with None assms(2) show ?thesis by (simp add: getPackageWith_def)
  next
    case (Inr otherPkg)
    let ?s1 = "s\<lparr>packages := (packages s)(key \<mapsto> newGopherPackage otherPkg)\<rparr>"
    obtain res1 s1' where b: "build ?s1 (Cached key) True = (res1, s1')"
      by (cases "build ?s1 (Cached key) True")
    with None Inr assms(2) have "s' = s1'"
      by (cases res1) (simp_all add: getPackageWith_def)
    moreover from assms(1) b have "framed (Some (Cached key)) ?s1 s1'"
      by (rule framesD)
    ultimately show ?thesis
      using None framed_new_descriptor by blast
  qed
qed

lemma getPackageWith_Ok:
  assumes "getPackageWith build w s key dir wd = (Ok c, s')"
  shows "c = Cached key"
  using assms
  by (auto simp: getPackageWith_def split: option.splits sum.splits prod.splits result.splits)


subsection \<open>Relations that every step of a loop keeps\<close>

text \<open>
  The loops change the state of the \<^verbatim>\<open>Translator\<close> only through \<^verbatim>\<open>getPackage\<close> and
  through the freshness timestamp of the package being built. A reflexive and transitive
  relation that these steps keep is kept by the loops.
\<close>

lemma importsLoop_rel:
  assumes refl: "\<And>s. R s s" and trans: "\<And>a b c. R a b \<Longrightarrow> R b c \<Longrightarrow> R a c"
    and get: "\<And>s key wd res s'. getPackageWith build w s key dir wd = (res, s') \<Longrightarrow> R s s'"
    and slm: "\<And>s v pkg. deref s r = Some pkg \<Longrightarrow> SrcLastModified pkg < v
                  \<Longrightarrow> R s (modify r (SrcLastModified_update (\<lambda>_. v)) s)"
  shows "importsLoop build w s r dir ps = (res, s') \<Longrightarrow> R s s'"
proof (induction ps arbitrary: s)
  case Nil
  then show ?case by (simp add: refl)
next
  case (Cons p ps)
  obtain res1 s1 where g: "getPackageWith build w s p dir True = (res1, s1)"
    by (cases "getPackageWith build w s p dir True")
  then have f1: "R s s1" by (rule get)
  show ?case
  proof (cases res1)
    case (Ok c)
    show ?thesis
    proof (cases "deref s1 c")
      case None
      with Cons.prems g Ok f1 show ?thesis by simp
    next
      case (Some compiledPkg)
      show ?thesis
      proof (cases "deref s1 r")
        case None
        with Cons.prems g Ok Some f1 show ?thesis by simp
      next
        case (Some pkg)
        let ?s2 = "if SrcLastModified pkg < SrcLastModified compiledPkg
                   then modify r (SrcLastModified_update (\<lambda>_. SrcLastModified compiledPkg)) s1 else s1"
        have "R s1 ?s2"
          using Some by (auto intro: refl slm)
        moreover from Cons.prems g Ok \<open>deref s1 c = Some compiledPkg\<close> Some
        have "importsLoop build w ?s2 r dir ps = (res, s')" by simp
        then have "R ?s2 s'" by (rule Cons.IH)
        ultimately show ?thesis
          using f1 trans by blast
      qed
    qed
  next
    case (Fail e)
    with Cons.prems g f1 show ?thesis by simp
  next
    case OutOfFuel
    with Cons.prems g f1 show ?thesis by simp
  qed
qed

lemma filesLoop_rel:
  assumes refl: "\<And>s. R s s" and trans: "\<And>a b c. R a b \<Longrightarrow> R b c \<Longrightarrow> R a c"
    and slm: "\<And>s v pkg. deref s r = Some pkg \<Longrightarrow> SrcLastModified pkg < v
                  \<Longrightarrow> R s (modify r (SrcLastModified_update (\<lambda>_. v)) s)"
  shows "filesLoop s r dir names = (res, s') \<Longrightarrow> R s s'"
proof (induction names arbitrary: s)
  case Nil
  then show ?case by (simp add: refl)
next
  case (Cons name names)
  show ?case
  proof (cases "fs s (dir @ ''/'' @ name)")
    case None
    with Cons.prems show ?thesis by (simp add: refl)
  next
    case (Some fileInfo)
    show ?thesis
    proof (cases "deref s r")
      case None
      with Cons.prems Some show ?thesis by (simp add: refl)
    next
      case (Some pkg)
      let ?s1 = "if SrcLastModified pkg < ModTime fileInfo
                 then modify r (SrcLastModified_update (\<lambda>_. ModTime fileInfo)) s else s"
      have "R s ?s1" using Some by (auto intro: refl slm)
      moreover from Cons.prems \<open>fs s (dir @ ''/'' @ name) = Some fileInfo\<close> Some
      have "filesLoop ?s1 r dir names = (res, s')" by simp
      then have "R ?s1 s'" by (rule Cons.IH)
      ultimately show ?thesis using trans by blast
    qed
  qed
qed

lemma loadLoop_skip:
  "excluded (Path (typesPkg w imp)) \<or> imp \<in> loaded \<Longrightarrow>
     loadLoop n build w dir (s, loaded, jsCode) (imp # rest) = loadLoop n build w dir (s, loaded, jsCode) rest"
  by auto

lemma loadLoop_visit:
  "\<not> excluded (Path (typesPkg w imp)) \<Longrightarrow> imp \<notin> loaded \<Longrightarrow>
     loadLoop n build w dir (s, loaded, jsCode) (imp # rest) =
       (case loadImportsOf n build w dir (s, insert imp loaded, jsCode) (Some imp) of
           (OutOfFuel, st1) \<Rightarrow> (OutOfFuel, st1)
         | (Fail err, st1) \<Rightarrow> (Fail err, st1)
         | (Ok u, s1, loaded1, jsCode1) \<Rightarrow>
             (case getPackageWith build w s1 (Path (typesPkg w imp)) dir False of
                (OutOfFuel, s2) \<Rightarrow> (OutOfFuel, s2, loaded1, jsCode1)
              | (Fail err, s2) \<Rightarrow> (Fail err, s2, loaded1, jsCode1)
              | (Ok g, s2) \<Rightarrow>
                  (case deref s2 g of
                     None \<Rightarrow> (Fail (Panic ''nil pointer dereference''), s2, loaded1, jsCode1)
                   | Some gopherPkg \<Rightarrow>
                       loadLoop n build w dir
                         (s2, loaded1, jsCode1 @ moduleBlock w (typesPkg w imp) (JavaScriptCode gopherPkg))
                         rest)))"
  by simp

declare loadLoop.simps(2) [simp del]

lemma loadLoop_rel_step:
  assumes refl: "\<And>s. R s s" and trans: "\<And>a b c. R a b \<Longrightarrow> R b c \<Longrightarrow> R a c"
    and get: "\<And>s key wd res s'. getPackageWith build w s key dir wd = (res, s') \<Longrightarrow> R s s'"
    and rec: "\<And>st tp res st'. loadImportsOf n build w dir st tp = (res, st') \<Longrightarrow> R (fst st) (fst st')"
  shows "loadLoop n build w dir st imps = (res, st') \<Longrightarrow> R (fst st) (fst st')"
proof (induction imps arbitrary: st)
  case Nil
  then show ?case by (simp add: refl)
next
  case (Cons imp rest)
  obtain s loaded jsCode where st: "st = (s, loaded, jsCode)" by (cases st) auto
  show ?case
  proof (cases "excluded (Path (typesPkg w imp)) \<or> imp \<in> loaded")
    case True
    with Cons.prems st have "loadLoop n build w dir st rest = (res, st')"
      by (simp add: loadLoop_skip)
    then show ?thesis by (rule Cons.IH)
  next
    case False
    then have ne: "\<not> excluded (Path (typesPkg w imp))" and nl: "imp \<notin> loaded" by auto
    note run = Cons.prems [unfolded st loadLoop_visit [OF ne nl]]
    obtain res1 s1 loaded1 jsCode1
      where l: "loadImportsOf n build w dir (s, insert imp loaded, jsCode) (Some imp) = (res1, s1, loaded1, jsCode1)"
      by (cases "loadImportsOf n build w dir (s, insert imp loaded, jsCode) (Some imp)") auto
    from rec [OF l] have f1: "R s s1" by simp
    show ?thesis
    proof (cases res1)
      case (Ok u)
      obtain res2 s2 where g: "getPackageWith build w s1 (Path (typesPkg w imp)) dir False = (res2, s2)"
        by (cases "getPackageWith build w s1 (Path (typesPkg w imp)) dir False")
      from g have f2: "R s1 s2" by (rule get)
      from f1 f2 have f12: "R s s2" by (rule trans)
      show ?thesis
      proof (cases res2)
        case (Ok c)
        show ?thesis
        proof (cases "deref s2 c")
          case None
          with run l \<open>res1 = Ok u\<close> g Ok f12 st show ?thesis by auto
        next
          case (Some gopherPkg)
          let ?st = "(s2, loaded1, jsCode1 @ moduleBlock w (typesPkg w imp) (JavaScriptCode gopherPkg))"
          from run l \<open>res1 = Ok u\<close> g Ok Some
          have "loadLoop n build w dir ?st rest = (res, st')" by simp
          then have "R (fst ?st) (fst st')" by (rule Cons.IH)
          with f12 st show ?thesis using trans by auto
        qed
      next
        case (Fail e)
        with run l \<open>res1 = Ok u\<close> g f12 st show ?thesis by auto
      next
        case OutOfFuel
        with run l \<open>res1 = Ok u\<close> g f12 st show ?thesis by auto
      qed
    next
      case (Fail e)
      with run l f1 st show ?thesis by auto
    next
      case OutOfFuel
      with run l f1 st show ?thesis by auto
    qed
  qed
qed

lemma loadImportsOf_rel:
  assumes refl: "\<And>s. R s s" and trans: "\<And>a b c. R a b \<Longrightarrow> R b c \<Longrightarrow> R a c"
    and get: "\<And>s key wd res s'. getPackageWith build w s key dir wd = (res, s') \<Longrightarrow> R s s'"
  shows "loadImportsOf n build w dir st tp = (res, st') \<Longrightarrow> R (fst st) (fst st')"
proof (induction n arbitrary: st tp res st')
  case 0
  then show ?case by (simp add: refl)
next
  case (Suc n)
  show ?case
  proof (cases tp)
    case None
    with Suc.prems show ?thesis by (simp add: refl)
  next
    case (Some t)
    with Suc.prems have "loadLoop n build w dir st (TypeImports (typesPkg w t)) = (res, st')"
      by simp
    then show ?thesis
      using refl trans get Suc.IH by (rule loadLoop_rel_step [rotated -1])
  qed
qed

lemma loadLoop_rel:
  assumes refl: "\<And>s. R s s" and trans: "\<And>a b c. R a b \<Longrightarrow> R b c \<Longrightarrow> R a c"
    and get: "\<And>s key wd res s'. getPackageWith build w s key dir wd = (res, s') \<Longrightarrow> R s s'"
    and run: "loadLoop n build w dir st imps = (res, st')"
  shows "R (fst st) (fst st')"
proof (rule loadLoop_rel_step [where R = R and build = build and w = w and dir = dir and n = n
          and st = st and imps = imps and res = res and st' = st'])
  show "R s s" for s by (rule refl)
  show "R a c" if "R a b" "R b c" for a b c using that by (rule trans)
  show "R s s'" if "getPackageWith build w s key dir wd = (res, s')" for s key wd res s'
    using that by (rule get)
  show "R (fst st) (fst st')" if l: "loadImportsOf n build w dir st tp = (res, st')" for st tp res st'
  proof (rule loadImportsOf_rel [where R = R and build = build and w = w and dir = dir and n = n
          and st = st and tp = tp and res = res and st' = st'])
    show "R s s" for s by (rule refl)
    show "R a c" if "R a b" "R b c" for a b c using that by (rule trans)
    show "R s s'" if "getPackageWith build w s key dir wd = (res, s')" for s key wd res s'
      using that by (rule get)
    show "loadImportsOf n build w dir st tp = (res, st')" by (rule l)
  qed
  show "loadLoop n build w dir st imps = (res, st')" by (rule run)
qed


subsection \<open>Every call frames the state\<close>

lemma importsLoop_framed:
  assumes "frames build" and "importsLoop build w s r dir ps = (res, s')"
  shows "framed (Some r) s s'"
proof (rule importsLoop_rel [where R = "framed (Some r)" and build = build and w = w and dir = dir
          and r = r and s = s and ps = ps and res = res and s' = s'])
  show "framed (Some r) a c" if "framed (Some r) a b" "framed (Some r) b c" for a b c
    using that by (rule framed_trans)
  show "framed (Some r) s s'" if "getPackageWith build w s key dir wd = (res, s')" for s key wd res s'
    using assms(1) that by (blast intro: framed_weaken getPackageWith_framed)
qed (simp_all add: framed_modify assms(2))

lemma filesLoop_framed:
  assumes "filesLoop s r dir names = (res, s')"
  shows "framed (Some r) s s'"
proof (rule filesLoop_rel [where R = "framed (Some r)" and r = r and s = s and dir = dir
          and names = names and res = res and s' = s'])
  show "framed (Some r) a c" if "framed (Some r) a b" "framed (Some r) b c" for a b c
    using that by (rule framed_trans)
qed (simp_all add: framed_modify assms)

lemma loadImportsOf_framed:
  assumes "frames build" and "loadImportsOf n build w dir (s, loaded, jsCode) tp = (res, s', loaded', jsCode')"
  shows "framed None s s'"
proof -
  have "framed None (fst (s, loaded, jsCode)) (fst (s', loaded', jsCode'))"
  proof (rule loadImportsOf_rel [where R = "framed None" and build = build and w = w and dir = dir
          and n = n and tp = tp and res = res])
    show "framed None a c" if "framed None a b" "framed None b c" for a b c
      using that by (rule framed_trans)
    show "framed None s s'" if "getPackageWith build w s key dir wd = (res, s')" for s key wd res s'
      using assms(1) that by (rule getPackageWith_framed)
  qed (simp_all add: assms(2))
  then show ?thesis by simp
qed

lemma loadFromDisk_framed:
  assumes "loadFromDisk w s r pkg = (res, s')"
  shows "framed (Some r) s s'"
proof -
  have m: "framed (Some r) s (modify r (JavaScriptCode_update f) (typesPackages_update g s))" for f g
  proof -
    have "framed (Some r) s (typesPackages_update g s)" by simp
    moreover have "framed (Some r) (typesPackages_update g s) (modify r (JavaScriptCode_update f) (typesPackages_update g s))"
      by (simp add: framed_modify)
    ultimately show ?thesis by (rule framed_trans)
  qed
  from assms show ?thesis
    by (auto simp: loadFromDisk_def m split: if_splits option.splits prod.splits sum.splits)
qed

lemma writeArtifact_framed:
  assumes "writeArtifact w s r wd = (res, s')"
  shows "framed ro s s'"
  using assms
  by (auto simp: writeArtifact_def split: if_splits option.splits)

lemma translateStep_framed:
  assumes "translateStep w s pkg = (res, s')"
  shows "framed ro s s'"
  using assms
  by (auto simp: translateStep_def split: prod.splits)

lemma compilePackage_framed:
  assumes "frames build" and "compilePackage n build w s r pkg wd = (res, s')"
  shows "framed (Some r) s s'"
proof -
  obtain tres s3 where t: "translateStep w s pkg = (tres, s3)"
    by (cases "translateStep w s pkg")
  then have f3: "framed (Some r) s s3" by (rule translateStep_framed)
  have fin: "framed (Some r) s3 s'"
    if "writeArtifact w (modify r (JavaScriptCode_update (\<lambda>_. code)) s4) r wd = (res, s')"
      and "framed (Some r) s3 s4" for code s4
  proof -
    have "framed (Some r) s4 (modify r (JavaScriptCode_update (\<lambda>_. code)) s4)"
      by (simp add: framed_modify)
    moreover from that(1) have "framed (Some r) (modify r (JavaScriptCode_update (\<lambda>_. code)) s4) s'"
      by (rule writeArtifact_framed)
    ultimately show ?thesis using that(2) framed_trans by blast
  qed
  show ?thesis
  proof (cases tres)
    case (Inl e)
    with assms(2) t f3 show ?thesis by (simp add: compilePackage_def)
  next
    case (Inr packageCode)
    show ?thesis
    proof (cases "IsCommand pkg")
      case False
      with assms(2) t Inr have "writeArtifact w (modify r (JavaScriptCode_update (\<lambda>_. packageCode)) s3) r wd = (res, s')"
        by (simp add: compilePackage_def)
      then have "framed (Some r) s3 s'" by (rule fin) simp
      with f3 show ?thesis by (rule framed_trans)
    next
      case True
      obtain lres s4 loaded jsCode
        where l: "loadImportsOf n build w (Dir pkg) (s3, {}, trimmedPrelude w @ [newline])
                    (regLookup (typesPackages s3) (ImportPath pkg)) = (lres, s4, loaded, jsCode)"
        by (cases "loadImportsOf n build w (Dir pkg) (s3, {}, trimmedPrelude w @ [newline])
                    (regLookup (typesPackages s3) (ImportPath pkg))") auto
      with assms(1) have f4: "framed (Some r) s3 s4"
        using loadImportsOf_framed framed_weaken by blast
      show ?thesis
      proof (cases lres)
        case (Ok u)
        with assms(2) t Inr True l
        have "writeArtifact w (modify r (JavaScriptCode_update (\<lambda>_. jsCode @ packageCode @ ''main();'')) s4) r wd = (res, s')"
          by (simp add: compilePackage_def)
        then have "framed (Some r) s3 s'" using f4 by (rule fin)
        with f3 show ?thesis by (rule framed_trans)
      next
        case (Fail e)
        with assms(2) t Inr True l have "s' = s4" by (simp add: compilePackage_def)
        with f3 f4 show ?thesis using framed_trans by blast
      next
        case OutOfFuel
        with assms(2) t Inr True l have "s' = s4" by (simp add: compilePackage_def)
        with f3 f4 show ?thesis using framed_trans by blast
      qed
    qed
  qed
qed

lemma finishBuild_framed:
  assumes "frames build" and "finishBuild n build w s r wd = (res, s')"
  shows "framed (Some r) s s'"
  using assms
  by (auto simp: finishBuild_def split: option.splits if_splits
           intro: loadFromDisk_framed compilePackage_framed)

text \<open>The three stages of \<open>buildBody\<close>, for a package that is not \<^verbatim>\<open>unsafe\<close>.\<close>

lemma buildBody_stages:
  assumes "buildBody n build w s r wd = (res, s')"
    and "deref s r = Some pkg" and "ImportPath pkg \<noteq> ''unsafe''" and "fs s (Args0 w) = Some fileInfo"
  obtains (inImports)
      "importsLoop build w (modify r (SrcLastModified_update (\<lambda>_. ModTime fileInfo))
          (s\<lparr>trace := trace s @ [EvBuild (ImportPath pkg)]\<rparr>)) r (Dir pkg) (Imports pkg) = (res, s')"
      "res \<noteq> Ok ()"
  | (inFiles) s1 where
      "importsLoop build w (modify r (SrcLastModified_update (\<lambda>_. ModTime fileInfo))
          (s\<lparr>trace := trace s @ [EvBuild (ImportPath pkg)]\<rparr>)) r (Dir pkg) (Imports pkg) = (Ok (), s1)"
      "filesLoop s1 r (Dir pkg) (GoFiles pkg) = (res, s')" "res \<noteq> Ok ()"
  | (inFinish) s1 s2 where
      "importsLoop build w (modify r (SrcLastModified_update (\<lambda>_. ModTime fileInfo))
          (s\<lparr>trace := trace s @ [EvBuild (ImportPath pkg)]\<rparr>)) r (Dir pkg) (Imports pkg) = (Ok (), s1)"
      "filesLoop s1 r (Dir pkg) (GoFiles pkg) = (Ok (), s2)"
      "finishBuild n build w s2 r wd = (res, s')"
proof -
  let ?s0 = "modify r (SrcLastModified_update (\<lambda>_. ModTime fileInfo))
          (s\<lparr>trace := trace s @ [EvBuild (ImportPath pkg)]\<rparr>)"
  obtain res1 s1 where i: "importsLoop build w ?s0 r (Dir pkg) (Imports pkg) = (res1, s1)"
    by (cases "importsLoop build w ?s0 r (Dir pkg) (Imports pkg)")
  show ?thesis
  proof (cases res1)
    case (Ok u)
    obtain res2 s2 where f: "filesLoop s1 r (Dir pkg) (GoFiles pkg) = (res2, s2)"
      by (cases "filesLoop s1 r (Dir pkg) (GoFiles pkg)")
    show ?thesis
    proof (cases res2)
      case (Ok u2)
      with assms i \<open>res1 = Ok u\<close> f show ?thesis
        by (intro inFinish [of s1 s2]) (auto simp: buildBody_def)
    next
      case (Fail e)
      with assms i \<open>res1 = Ok u\<close> f show ?thesis
        by (intro inFiles [of s1]) (auto simp: buildBody_def)
    next
      case OutOfFuel
      with assms i \<open>res1 = Ok u\<close> f show ?thesis
        by (intro inFiles [of s1]) (auto simp: buildBody_def)
    qed
  next
    case (Fail e)
    with assms i show ?thesis
      by (intro inImports) (auto simp: buildBody_def)
  next
    case OutOfFuel
    with assms i show ?thesis
      by (intro inImports) (auto simp: buildBody_def)
  qed
qed

lemma buildBody_framed:
  assumes "frames build" and "buildBody n build w s r wd = (res, s')"
  shows "framed (Some r) s s'"
proof (cases "deref s r")
  case None
  with assms(2) show ?thesis by (simp add: buildBody_def)
next
  case (Some pkg)
  show ?thesis
  proof (cases "ImportPath pkg = ''unsafe''")
    case True
    with assms(2) Some show ?thesis by (auto simp: buildBody_def framed_def)
  next
    case False
    show ?thesis
    proof (cases "fs s (Args0 w)")
      case None
      with assms(2) Some False show ?thesis by (auto simp: buildBody_def)
    next
      case (Some fileInfo)
      let ?s0 = "modify r (SrcLastModified_update (\<lambda>_. ModTime fileInfo))
          (s\<lparr>trace := trace s @ [EvBuild (ImportPath pkg)]\<rparr>)"
      have f0: "framed (Some r) s ?s0"
      proof -
        have "framed (Some r) s (s\<lparr>trace := trace s @ [EvBuild (ImportPath pkg)]\<rparr>)" by simp
        moreover have "framed (Some r) (s\<lparr>trace := trace s @ [EvBuild (ImportPath pkg)]\<rparr>) ?s0"
          by (simp add: framed_modify)
        ultimately show ?thesis by (rule framed_trans)
      qed
      from assms(2) \<open>deref s r = Some pkg\<close> False Some show ?thesis
      proof (cases rule: buildBody_stages)
        case inImports
        from assms(1) inImports(1) have "framed (Some r) ?s0 s'" by (rule importsLoop_framed)
        with f0 show ?thesis by (rule framed_trans)
      next
        case (inFiles s1)
        from assms(1) inFiles(1) have "framed (Some r) ?s0 s1" by (rule importsLoop_framed)
        moreover from inFiles(2) have "framed (Some r) s1 s'" by (rule filesLoop_framed)
        ultimately show ?thesis using f0 framed_trans by blast
      next
        case (inFinish s1 s2)
        from assms(1) inFinish(1) have "framed (Some r) ?s0 s1" by (rule importsLoop_framed)
        moreover from inFinish(2) have "framed (Some r) s1 s2" by (rule filesLoop_framed)
        moreover from assms(1) inFinish(3) have "framed (Some r) s2 s'" by (rule finishBuild_framed)
        ultimately show ?thesis using f0 framed_trans by blast
      qed
    qed
  qed
qed

lemma buildPackage_frames: "frames (buildPackage n w)"
proof (induction n)
  case 0
  show ?case by (simp add: frames_def)
next
  case (Suc n)
  show ?case
    unfolding frames_def
  proof (intro allI impI)
    fix s r wd res s'
    assume "buildPackage (Suc n) w s r wd = (res, s')"
    then have "buildBody n (buildPackage n w) w s r wd = (res, s')" by simp
    with Suc show "framed (Some r) s s'" by (rule buildBody_framed)
  qed
qed

lemma getPackage_framed:
  "getPackage n w s key dir wd = (res, s') \<Longrightarrow> framed None s s'"
  unfolding getPackage_def by (rule getPackageWith_framed [OF buildPackage_frames])

subsection \<open>A failed build leaves its descriptor in the cache\<close>

lemma getPackage_cached:
  "packages s importPath = Some pkg \<Longrightarrow> getPackage n w s importPath srcDir wd = (Ok (Cached importPath), s)"
  by (simp add: getPackage_def getPackageWith_def)

text \<open>
  C9, as amended. \<^verbatim>\<open>getPackage\<close> stores the new descriptor under its key and then builds
  it; when that build fails the descriptor stays in the cache with the fields of the
  imported package, and every later request for the key returns it with a nil error and
  leaves the state as it is.
\<close>

theorem getPackage_failure_cached:
  assumes "getPackage n w s importPath srcDir wd = (Fail err, s')"
    and "packages s importPath = None"
    and "bc_Import w importPath srcDir = Inr otherPkg"
  shows "buildPackage n w (s\<lparr>packages := (packages s)(importPath \<mapsto> newGopherPackage otherPkg)\<rparr>)
             (Cached importPath) True = (Fail err, s')
       \<and> (\<exists>pkg. packages s' importPath = Some pkg \<and> sameStatic (newGopherPackage otherPkg) pkg)
       \<and> (\<forall>m srcDir' wd'. getPackage m w s' importPath srcDir' wd' = (Ok (Cached importPath), s'))"
proof -
  let ?s1 = "s\<lparr>packages := (packages s)(importPath \<mapsto> newGopherPackage otherPkg)\<rparr>"
  from assms have b: "buildPackage n w ?s1 (Cached importPath) True = (Fail err, s')"
    by (auto simp: getPackage_def getPackageWith_def split: prod.splits result.splits)
  have "framed (Some (Cached importPath)) ?s1 s'"
    using buildPackage_frames b by (rule framesD)
  moreover have "packages ?s1 importPath = Some (newGopherPackage otherPkg)" by simp
  ultimately obtain pkg where p: "packages s' importPath = Some pkg" "sameStatic (newGopherPackage otherPkg) pkg"
    unfolding framed_def by blast
  from p(1) have "getPackage m w s' importPath srcDir' wd' = (Ok (Cached importPath), s')" for m srcDir' wd'
    by (rule getPackage_cached)
  with b p show ?thesis by blast
qed


theorem getPackage_failure_cached_witness:
  "fst exFailedGet = Fail (Err ''permission denied'')
   \<and> packages (newTranslator exMain exFiles) ''d'' = None
   \<and> (\<exists>pkg. packages (snd exFailedGet) ''d'' = Some pkg \<and> sameStatic (newGopherPackage (exPackage ''d'' [])) pkg)
   \<and> (\<forall>m srcDir' wd'. getPackage m exWorldReadOnly (snd exFailedGet) ''d'' srcDir' wd'
          = (Ok (Cached ''d''), snd exFailedGet))"
proof -
  have f: "fst exFailedGet = Fail (Err ''permission denied'')"
    by code_simp
  then have g: "getPackage 5 exWorldReadOnly (newTranslator exMain exFiles) ''d'' ''.'' True
                  = (Fail (Err ''permission denied''), snd exFailedGet)"
    by (simp add: exFailedGet_def prod_eq_iff)
  have n: "packages (newTranslator exMain exFiles) ''d'' = None"
    by (simp add: newTranslator_def)
  have i: "bc_Import exWorldReadOnly ''d'' ''.'' = Inr (exPackage ''d'' [])"
    by (simp add: exWorldReadOnly_def exWorld_def)
  from getPackage_failure_cached [OF g n i] f n show ?thesis by simp
qed

text \<open>
  C9 as stated fails in its description of the cached descriptor: when the build fails
  only at opening the artifact for writing, the descriptor left in the cache has its
  compiled payload and its type interface is registered.
\<close>

theorem failed_descriptor_counterexample:
  "fst exFailedGet = Fail (Err ''permission denied'')
   \<and> map_option JavaScriptCode (packages (snd exFailedGet) ''d'') = Some ''code of d;''
   \<and> typesPackages (snd exFailedGet) ''d'' = Some (Some 3)
   \<and> fst (getPackage 5 exWorldReadOnly (snd exFailedGet) ''d'' ''.'' True) = Ok (Cached ''d'')"
  by code_simp

subsection \<open>Bundle assembly builds with writeToDisk set\<close>

text \<open>
  C1. \<^verbatim>\<open>loadImportsOf\<close> passes \<^verbatim>\<open>false\<close> to \<^verbatim>\<open>getPackage\<close>, which ignores the
  parameter and builds with \<^verbatim>\<open>true\<close>. In the run below (\<^verbatim>\<open>gopherjs run main.go\<close>, so
  not even the executable is persisted) the package \<open>e\<close> is first requested while the
  bundle is assembled, after \<open>main\<close> has been translated, and its artifact is written.
\<close>

theorem bundle_dependency_persisted:
  "getPackage n w s importPath srcDir False = getPackage n w s importPath srcDir True
   \<and> exStrayFiles ''pkg/e.a'' = None
   \<and> map_option fst (main 10 exWorldStray exStrayFiles ''run'' ''main.go'') = Some (Ok ())
   \<and> map_option (trace \<circ> snd) (main 10 exWorldStray exStrayFiles ''run'' ''main.go'')
        = Some [EvBuild ''main'', EvTranslate ''main'', EvBuild ''e'', EvTranslate ''e'']
   \<and> map_option (\<lambda>rs. map_option contents (fs (snd rs) ''pkg/e.a''))
        (main 10 exWorldStray exStrayFiles ''run'' ''main.go'')
        = Some (Some (''meta'' @ sentinel @ ''code of e;''))
   \<and> map_option (\<lambda>rs. map_option contents (fs (snd rs) ''main.js''))
        (main 10 exWorldStray exStrayFiles ''run'' ''main.go'') = Some None"
proof -
  have "getPackage n w s importPath srcDir False = getPackage n w s importPath srcDir True"
    by (simp add: getPackage_def getPackageWith_def)
  moreover have "exStrayFiles ''pkg/e.a'' = None"
    by (simp add: exStrayFiles_def)
  moreover have "map_option fst (main 10 exWorldStray exStrayFiles ''run'' ''main.go'') = Some (Ok ())"
    by code_simp
  moreover have "map_option (trace \<circ> snd) (main 10 exWorldStray exStrayFiles ''run'' ''main.go'')
        = Some [EvBuild ''main'', EvTranslate ''main'', EvBuild ''e'', EvTranslate ''e'']"
    by code_simp
  moreover have "map_option (\<lambda>rs. map_option contents (fs (snd rs) ''pkg/e.a''))
        (main 10 exWorldStray exStrayFiles ''run'' ''main.go'')
        = Some (Some (''meta'' @ sentinel @ ''code of e;''))"
    by code_simp
  moreover have "map_option (\<lambda>rs. map_option contents (fs (snd rs) ''main.js''))
        (main 10 exWorldStray exStrayFiles ''run'' ''main.go'') = Some None"
    by code_simp
  ultimately show ?thesis by blast
qed

subsection \<open>At most one build and one translation per identity\<close>

lemma builtPaths_append [simp]: "builtPaths (a @ b) = builtPaths a @ builtPaths b"
  by (induction a rule: builtPaths.induct) simp_all

lemma translatedPaths_append [simp]: "translatedPaths (a @ b) = translatedPaths a @ translatedPaths b"
  by (induction a rule: translatedPaths.induct) simp_all

lemma framed_trace: "framed ro s s' \<Longrightarrow> trace s' = trace s @ since s s'"
  by (auto simp: framed_def since_def)

lemma framed_dom: "framed ro s s' \<Longrightarrow> dom (packages s) \<subseteq> dom (packages s')"
  by (auto simp: framed_def) blast

lemma framed_deref:
  assumes "framed ro s s'" and "deref s r = Some p"
  shows "\<exists>p'. deref s' r = Some p' \<and> sameStatic p p'"
proof (cases r)
  case Entry
  with assms show ?thesis by (auto simp: framed_def deref_def)
next
  case (Cached k)
  with assms(2) have "packages s k = Some p" by (simp add: deref_def)
  with assms(1) obtain p' where "packages s' k = Some p'" "sameStatic p p'"
    unfolding framed_def by blast
  with Cached show ?thesis by (simp add: deref_def)
qed

lemma since_trans:
  assumes "framed ro a b" and "framed ro' b c"
  shows "since a c = since a b @ since b c"
proof -
  from assms obtain e1 e2 where "trace b = trace a @ e1" "trace c = trace b @ e2"
    unfolding framed_def by blast
  then show ?thesis by (simp add: since_def)
qed

lemma since_eq: "trace s' = trace s @ evs \<Longrightarrow> since s s' = evs"
  by (simp add: since_def)

lemma since_refl [simp]: "since s s = []"
  by (simp add: since_def)

lemma keeps_refl [simp]: "keeps X s s"
  by (simp add: keeps_def)

lemma keeps_trans:
  assumes ab: "framed ro a b" "keeps X a b" and bc: "framed ro b c" "keeps X b c"
  shows "keeps X a c"
  unfolding keeps_def
proof (intro impI)
  assume x: "X \<inter> dom (packages c) = {}" and o: "onceEach X a"
  from bc(1) have "dom (packages b) \<subseteq> dom (packages c)" by (rule framed_dom)
  with x have "X \<inter> dom (packages b) = {}" by blast
  with ab(2) o have b: "onceEach X b" "set (translatedPaths (since a b)) \<subseteq> set (builtPaths (since a b))"
    by (simp_all add: keeps_def)
  with bc(2) x have c: "onceEach X c" "set (translatedPaths (since b c)) \<subseteq> set (builtPaths (since b c))"
    by (simp_all add: keeps_def)
  from ab(1) bc(1) have "since a c = since a b @ since b c" by (rule since_trans)
  with b(2) c show "onceEach X c \<and> set (translatedPaths (since a c)) \<subseteq> set (builtPaths (since a c))"
    by auto
qed

lemma onceEach_modify:
  assumes "\<And>p. sameStatic p (f p)" and "onceEach X s"
  shows "onceEach X (modify r f s)"
proof (cases r)
  case Entry
  with assms(2) show ?thesis by (simp add: onceEach_def modify_def)
next
  case (Cached k)
  have d: "dom ((packages s)(k := map_option f (packages s k))) = dom (packages s)"
    by (auto simp: dom_def)
  have "ImportPath (f p) = ImportPath p" for p
    using assms(1) [of p] by (simp add: sameStatic_def)
  with assms(2) Cached d show ?thesis
    by (auto simp: onceEach_def modify_def split: if_splits)
qed

lemma since_modify [simp]: "since s (modify r f s) = []"
  by (simp add: since_def)

lemma keeps_modify: "(\<And>p. sameStatic p (f p)) \<Longrightarrow> keeps X s (modify r f s)"
  by (simp add: keeps_def onceEach_modify)

lemma onceEach_fields [simp]:
  "onceEach X (typesPackages_update g s) = onceEach X s"
  "onceEach X (fs_update h s) = onceEach X s"
  by (simp_all add: onceEach_def)

lemma since_fields [simp]:
  "since s (typesPackages_update g s') = since s s'"
  "since s (fs_update h s') = since s s'"
  "since (typesPackages_update g s) s' = since s s'"
  "since (fs_update h s) s' = since s s'"
  by (simp_all add: since_def)

lemma keeps_fields [simp]:
  "keeps X s (typesPackages_update g s)" "keeps X s (fs_update h s)"
  by (simp_all add: keeps_def)

lemma onceD:
  assumes "once X build" and "build s r wd = (res, s')" and "deref s r = Some pkg"
    and "ImportPath pkg \<notin> set (builtPaths (trace s))" and "ImportPath pkg \<in> dom (packages s) \<union> X"
  shows "keeps X s s'"
  using assms unfolding once_def by blast

lemma getPackageWith_keeps:
  assumes fr: "frames build" and on: "once X build" and can: "canonical w"
    and run: "getPackageWith build w s key dir wd = (res, s')"
  shows "keeps X s s'"
proof (cases "packages s key")
  case (Some p)
  with run show ?thesis by (simp add: getPackageWith_def)
next
  case None
  show ?thesis
  proof (cases "bc_Import w key dir")
    case (Inl e)
    with None run show ?thesis by (simp add: getPackageWith_def)
  next
    case (Inr otherPkg)
    let ?s1 = "s\<lparr>packages := (packages s)(key \<mapsto> newGopherPackage otherPkg)\<rparr>"
    obtain res1 s1' where b: "build ?s1 (Cached key) True = (res1, s1')"
      by (cases "build ?s1 (Cached key) True")
    with None Inr run have s': "s' = s1'"
      by (cases res1) (simp_all add: getPackageWith_def)
    from fr b have f1: "framed (Some (Cached key)) ?s1 s'"
      unfolding s' by (rule framesD)
    from can Inr have ip: "ImportPath (newGopherPackage otherPkg) = key"
      by (simp add: canonical_def newGopherPackage_def)
    show ?thesis
      unfolding keeps_def
    proof (intro impI)
      assume x: "X \<inter> dom (packages s') = {}" and o: "onceEach X s"
      from f1 have "dom (packages ?s1) \<subseteq> dom (packages s')" by (rule framed_dom)
      then have kd: "key \<in> dom (packages s')" by auto
      with x have kx: "key \<notin> X" by blast
      from o None kx have nb: "key \<notin> set (builtPaths (trace s))"
        by (auto simp: onceEach_def)
      from o ip have o1: "onceEach X ?s1"
        by (auto simp: onceEach_def)
      have "keeps X ?s1 s'"
        using on b [folded s'] by (rule onceD [where pkg = "newGopherPackage otherPkg"]) (simp_all add: deref_def ip nb)
      with x o1 have "onceEach X s' \<and> set (translatedPaths (since ?s1 s')) \<subseteq> set (builtPaths (since ?s1 s'))"
        by (simp add: keeps_def)
      moreover have "since ?s1 s' = since s s'" by (simp add: since_def)
      ultimately show "onceEach X s' \<and> set (translatedPaths (since s s')) \<subseteq> set (builtPaths (since s s'))"
        by simp
    qed
  qed
qed


lemma importsLoop_keeps:
  assumes fr: "frames build" and on: "once X build" and can: "canonical w"
    and run: "importsLoop build w s r dir ps = (res, s')"
  shows "keeps X s s'"
proof -
  let ?R = "\<lambda>s s'. framed (Some r) s s' \<and> keeps X s s'"
  have "?R s s'"
  proof (rule importsLoop_rel [where R = ?R and build = build and w = w and dir = dir
          and r = r and s = s and ps = ps and res = res and s' = s'])
    show "?R a c" if "?R a b" "?R b c" for a b c
      using that by (blast intro: framed_trans keeps_trans)
    show "?R s s'" if "getPackageWith build w s key dir wd = (res, s')" for s key wd res s'
      using fr on can that by (blast intro: framed_weaken getPackageWith_framed getPackageWith_keeps)
  qed (simp_all add: framed_modify keeps_modify run)
  then show ?thesis ..
qed

lemma filesLoop_keeps:
  assumes run: "filesLoop s r dir names = (res, s')"
  shows "keeps X s s'"
proof -
  let ?R = "\<lambda>s s'. framed (Some r) s s' \<and> keeps X s s'"
  have "?R s s'"
  proof (rule filesLoop_rel [where R = ?R and r = r and s = s and dir = dir
          and names = names and res = res and s' = s'])
    show "?R a c" if "?R a b" "?R b c" for a b c
      using that by (blast intro: framed_trans keeps_trans)
  qed (simp_all add: framed_modify keeps_modify run)
  then show ?thesis ..
qed

lemma loadImportsOf_keeps:
  assumes fr: "frames build" and on: "once X build" and can: "canonical w"
    and run: "loadImportsOf n build w dir (s, loaded, jsCode) tp = (res, s', loaded', jsCode')"
  shows "keeps X s s'"
proof -
  let ?R = "\<lambda>s s'. framed None s s' \<and> keeps X s s'"
  have "?R (fst (s, loaded, jsCode)) (fst (s', loaded', jsCode'))"
  proof (rule loadImportsOf_rel [where R = ?R and build = build and w = w and dir = dir
          and n = n and tp = tp and res = res])
    show "?R a c" if "?R a b" "?R b c" for a b c
      using that by (blast intro: framed_trans keeps_trans)
    show "?R s s'" if "getPackageWith build w s key dir wd = (res, s')" for s key wd res s'
      using fr on can that by (blast intro: getPackageWith_framed getPackageWith_keeps)
  qed (simp_all add: run)
  then show ?thesis by simp
qed

lemma loadFromDisk_keeps:
  assumes "loadFromDisk w s r pkg = (res, s')"
  shows "keeps X s s'"
proof -
  have m: "keeps X s (modify r (JavaScriptCode_update f) (typesPackages_update g s))" for f g
    by (simp add: keeps_def onceEach_modify since_def)
  from assms show ?thesis
    by (auto simp: loadFromDisk_def m split: if_splits option.splits prod.splits sum.splits)
qed

lemma writeArtifact_keeps:
  assumes "writeArtifact w s r wd = (res, s')"
  shows "keeps X s s'"
  using assms
  by (auto simp: writeArtifact_def split: if_splits option.splits)

lemma writeArtifact_trace:
  assumes "writeArtifact w s r wd = (res, s')"
  shows "trace s' = trace s" and "packages s' = packages s"
  using assms
  by (auto simp: writeArtifact_def split: if_splits option.splits)


lemma keepsD:
  assumes "keeps X t t'" and "framed ro t' s'" and "X \<inter> dom (packages s') = {}" and "onceEach X t"
  shows "onceEach X t'" and "set (translatedPaths (since t t')) \<subseteq> set (builtPaths (since t t'))"
proof -
  from assms(2) have "dom (packages t') \<subseteq> dom (packages s')" by (rule framed_dom)
  with assms(3) have "X \<inter> dom (packages t') = {}" by blast
  with assms(1,4) show "onceEach X t'" and "set (translatedPaths (since t t')) \<subseteq> set (builtPaths (since t t'))"
    by (simp_all add: keeps_def)
qed

lemma onceEach_translate:
  assumes "onceEach X s" and "p \<notin> set (translatedPaths (trace s))" and "p \<in> set (builtPaths (trace s))"
  shows "onceEach X (s\<lparr>typesPackages := reg, trace := trace s @ [EvTranslate p]\<rparr>)"
  using assms by (auto simp: onceEach_def)

lemma onceEach_same:
  assumes "onceEach X s" and "trace s' = trace s" and "dom (packages s') = dom (packages s)"
    and "\<And>k p'. packages s' k = Some p' \<Longrightarrow> \<exists>p. packages s k = Some p \<and> ImportPath p' = ImportPath p"
  shows "onceEach X s'"
  unfolding onceEach_def
proof (intro conjI allI impI)
  fix k p' assume "packages s' k = Some p'"
  with assms(4) obtain p where "packages s k = Some p" "ImportPath p' = ImportPath p" by blast
  with assms(1) show "ImportPath p' = k" by (simp add: onceEach_def)
qed (use assms(1-3) in \<open>simp_all add: onceEach_def\<close>)

lemma store_and_write:
  assumes w: "writeArtifact w (modify r (JavaScriptCode_update f) s4) r wd = (res, s')"
    and o: "onceEach X s4"
  shows "onceEach X s'" and "trace s' = trace s4"
proof -
  from w have t: "trace s' = trace s4" and p: "packages s' = packages (modify r (JavaScriptCode_update f) s4)"
    by (simp_all add: writeArtifact_trace)
  from o have "onceEach X (modify r (JavaScriptCode_update f) s4)"
    by (simp add: onceEach_modify)
  then show "onceEach X s'"
    by (rule onceEach_same) (simp_all add: t p)
  show "trace s' = trace s4" by (rule t)
qed

lemma compilePackage_done:
  assumes fr: "frames build" and on: "once X build" and can: "canonical w"
    and run: "compilePackage n build w s2 r pkg wd = (res, s')"
    and x: "X \<inter> dom (packages s') = {}" and o2: "onceEach X s2"
    and nt: "ImportPath pkg \<notin> set (translatedPaths (trace s2))"
    and ib: "ImportPath pkg \<in> set (builtPaths (trace s2))"
  shows "onceEach X s' \<and> (\<exists>e. trace s' = trace s2 @ EvTranslate (ImportPath pkg) # e
                              \<and> set (translatedPaths e) \<subseteq> set (builtPaths e))"
proof -
  obtain tres reg where tp: "translatePackage w (ImportPath pkg) (Dir pkg) (GoFiles pkg) (typesPackages s2) = (tres, reg)"
    by (cases "translatePackage w (ImportPath pkg) (Dir pkg) (GoFiles pkg) (typesPackages s2)")
  let ?s3 = "s2\<lparr>typesPackages := reg, trace := trace s2 @ [EvTranslate (ImportPath pkg)]\<rparr>"
  from tp have t: "translateStep w s2 pkg = (tres, ?s3)"
    by (simp add: translateStep_def)
  from o2 nt ib have o3: "onceEach X ?s3" by (rule onceEach_translate)
  have tr3: "trace ?s3 = trace s2 @ [EvTranslate (ImportPath pkg)]" by simp
  show ?thesis
  proof (cases tres)
    case (Inl e)
    with run t have "s' = ?s3" by (simp add: compilePackage_def)
    with o3 show ?thesis by simp
  next
    case (Inr packageCode)
    show ?thesis
    proof (cases "IsCommand pkg")
      case False
      with run t Inr have "writeArtifact w (modify r (JavaScriptCode_update (\<lambda>_. packageCode)) ?s3) r wd = (res, s')"
        by (simp add: compilePackage_def)
      from store_and_write [OF this o3] show ?thesis by simp
    next
      case True
      obtain lres s4 loaded jsCode
        where l: "loadImportsOf n build w (Dir pkg) (?s3, {}, trimmedPrelude w @ [newline])
                    (regLookup (typesPackages ?s3) (ImportPath pkg)) = (lres, s4, loaded, jsCode)"
        by (cases "loadImportsOf n build w (Dir pkg) (?s3, {}, trimmedPrelude w @ [newline])
                    (regLookup (typesPackages ?s3) (ImportPath pkg))") auto
      from fr l have f34: "framed None ?s3 s4" by (rule loadImportsOf_framed)
      from fr on can l have k34: "keeps X ?s3 s4" by (rule loadImportsOf_keeps)
      have tr4: "trace s4 = trace s2 @ EvTranslate (ImportPath pkg) # since ?s3 s4"
        using framed_trace [OF f34] by simp
      have fin: "onceEach X s4 \<and> set (translatedPaths (since ?s3 s4)) \<subseteq> set (builtPaths (since ?s3 s4))"
        if "framed ro s4 s'" for ro
        using keepsD [OF k34 that x o3] by simp
      show ?thesis
      proof (cases lres)
        case (Ok u)
        with run t Inr True l
        have wr: "writeArtifact w (modify r (JavaScriptCode_update (\<lambda>_. jsCode @ packageCode @ ''main();'')) s4) r wd = (res, s')"
          by (simp add: compilePackage_def)
        have "framed (Some r) s4 (modify r (JavaScriptCode_update (\<lambda>_. jsCode @ packageCode @ ''main();'')) s4)"
          by (simp add: framed_modify)
        moreover from wr have "framed (Some r) (modify r (JavaScriptCode_update (\<lambda>_. jsCode @ packageCode @ ''main();'')) s4) s'"
          by (rule writeArtifact_framed)
        ultimately have "framed (Some r) s4 s'" by (rule framed_trans)
        from fin [OF this] store_and_write [OF wr] tr4 show ?thesis by auto
      next
        case (Fail e)
        with run t Inr True l have "s' = s4" by (simp add: compilePackage_def)
        with fin [of None] tr4 show ?thesis by auto
      next
        case OutOfFuel
        with run t Inr True l have "s' = s4" by (simp add: compilePackage_def)
        with fin [of None] tr4 show ?thesis by auto
      qed
    qed
  qed
qed


lemma onceEach_build_event:
  assumes "onceEach X s" and "p \<notin> set (builtPaths (trace s))" and "p \<in> dom (packages s) \<union> X"
  shows "onceEach X (s\<lparr>trace := trace s @ [EvBuild p]\<rparr>)"
    and "onceEach X (s\<lparr>typesPackages := reg, trace := trace s @ [EvBuild p]\<rparr>)"
  using assms by (auto simp: onceEach_def)

lemma bracket_untranslated:
  assumes k: "keeps X s0 s'" and f: "framed ro s0 s'" and x: "X \<inter> dom (packages s') = {}"
    and o: "onceEach X s0" and t: "trace s0 = trace s @ [EvBuild p]"
  shows "onceEach X s' \<and> set (translatedPaths (since s s')) \<subseteq> set (builtPaths (since s s'))"
proof -
  from keepsD [OF k framed_refl x o]
  have o': "onceEach X s'" and sub: "set (translatedPaths (since s0 s')) \<subseteq> set (builtPaths (since s0 s'))"
    by simp_all
  from framed_trace [OF f] t have "trace s' = trace s @ EvBuild p # since s0 s'" by simp
  then have "since s s' = EvBuild p # since s0 s'" by (rule since_eq)
  with o' sub show ?thesis by auto
qed

lemma buildBody_keeps:
  assumes fr: "frames build" and on: "once X build" and can: "canonical w"
    and run: "buildBody n build w s r wd = (res, s')"
    and d: "deref s r = Some pkg"
    and nb: "ImportPath pkg \<notin> set (builtPaths (trace s))"
    and mem: "ImportPath pkg \<in> dom (packages s) \<union> X"
  shows "keeps X s s'"
  unfolding keeps_def
proof (intro impI)
  assume x: "X \<inter> dom (packages s') = {}" and o: "onceEach X s"
  let ?ip = "ImportPath pkg"
  let ?goal = "onceEach X s' \<and> set (translatedPaths (since s s')) \<subseteq> set (builtPaths (since s s'))"
  show ?goal
  proof (cases "?ip = ''unsafe''")
    case True
    with run d have "s' = s\<lparr>typesPackages := (typesPackages s)(''unsafe'' \<mapsto> Some (Unsafe w)),
                          trace := trace s @ [EvBuild ?ip]\<rparr>"
      by (simp add: buildBody_def)
    with onceEach_build_event(2) [OF o nb mem] show ?thesis
      by (simp add: since_def)
  next
    case False
    show ?thesis
    proof (cases "fs s (Args0 w)")
      case None
      with run d False have "s' = s\<lparr>trace := trace s @ [EvBuild ?ip]\<rparr>"
        by (simp add: buildBody_def)
      with onceEach_build_event(1) [OF o nb mem] show ?thesis
        by (simp add: since_def)
    next
      case (Some fileInfo)
      let ?sB = "s\<lparr>trace := trace s @ [EvBuild ?ip]\<rparr>"
      let ?s0 = "modify r (SrcLastModified_update (\<lambda>_. ModTime fileInfo)) ?sB"
      have o0: "onceEach X ?s0"
        using onceEach_build_event(1) [OF o nb mem] by (simp add: onceEach_modify)
      have t0: "trace ?s0 = trace s @ [EvBuild ?ip]" by simp
      have f0: "framed (Some r) s ?s0"
      proof -
        have "framed (Some r) s ?sB" by simp
        moreover have "framed (Some r) ?sB ?s0" by (simp add: framed_modify)
        ultimately show ?thesis by (rule framed_trans)
      qed
      from run d False Some show ?thesis
      proof (cases rule: buildBody_stages)
        case inImports
        from fr inImports(1) have "framed (Some r) ?s0 s'" by (rule importsLoop_framed)
        moreover from fr on can inImports(1) have "keeps X ?s0 s'" by (rule importsLoop_keeps)
        ultimately show ?thesis using x o0 t0 by (intro bracket_untranslated)
      next
        case (inFiles s1)
        from fr inFiles(1) have f1: "framed (Some r) ?s0 s1" by (rule importsLoop_framed)
        from fr on can inFiles(1) have k1: "keeps X ?s0 s1" by (rule importsLoop_keeps)
        from inFiles(2) have f2: "framed (Some r) s1 s'" by (rule filesLoop_framed)
        from inFiles(2) have k2: "keeps X s1 s'" by (rule filesLoop_keeps)
        from f1 k1 f2 k2 have "keeps X ?s0 s'" by (rule keeps_trans)
        moreover from f1 f2 have "framed (Some r) ?s0 s'" by (rule framed_trans)
        ultimately show ?thesis using x o0 t0 by (intro bracket_untranslated)
      next
        case (inFinish s1 s2)
        from fr inFinish(1) have f1: "framed (Some r) ?s0 s1" by (rule importsLoop_framed)
        from fr on can inFinish(1) have k1: "keeps X ?s0 s1" by (rule importsLoop_keeps)
        from inFinish(2) have f2: "framed (Some r) s1 s2" by (rule filesLoop_framed)
        from inFinish(2) have k2: "keeps X s1 s2" by (rule filesLoop_keeps)
        from f1 k1 f2 k2 have k02: "keeps X ?s0 s2" by (rule keeps_trans)
        from f1 f2 have f02: "framed (Some r) ?s0 s2" by (rule framed_trans)
        from fr inFinish(3) have f23: "framed (Some r) s2 s'" by (rule finishBuild_framed)
        from f0 f02 have "framed (Some r) s s2" by (rule framed_trans)
        with d obtain pkg2 where d2: "deref s2 r = Some pkg2" and st: "sameStatic pkg pkg2"
          using framed_deref by blast
        from st have ip2: "ImportPath pkg2 = ?ip" by (simp add: sameStatic_def)
        show ?thesis
        proof (cases "upToDate s2 pkg2 wd")
          case True
          with inFinish(3) d2 have l: "loadFromDisk w s2 r pkg2 = (res, s')"
            by (simp add: finishBuild_def)
          then have "keeps X s2 s'" by (rule loadFromDisk_keeps)
          with f02 k02 f23 have "keeps X ?s0 s'" by (rule keeps_trans)
          moreover from f02 f23 have "framed (Some r) ?s0 s'" by (rule framed_trans)
          ultimately show ?thesis using x o0 t0 by (intro bracket_untranslated)
        next
          case False
          with inFinish(3) d2 have c: "compilePackage n build w s2 r pkg2 wd = (res, s')"
            by (simp add: finishBuild_def)
          from keepsD [OF k02 f23 x o0]
          have o2: "onceEach X s2"
            and sub2: "set (translatedPaths (since ?s0 s2)) \<subseteq> set (builtPaths (since ?s0 s2))"
            by simp_all
          from framed_trace [OF f02] t0
          have t2: "trace s2 = trace s @ EvBuild ?ip # since ?s0 s2" by simp
          from o2 t2 have "?ip \<notin> set (builtPaths (since ?s0 s2))"
            by (auto simp: onceEach_def)
          with sub2 have n1: "?ip \<notin> set (translatedPaths (since ?s0 s2))" by blast
          from o nb have n2: "?ip \<notin> set (translatedPaths (trace s))"
            by (auto simp: onceEach_def)
          from n1 n2 t2 have nt: "ImportPath pkg2 \<notin> set (translatedPaths (trace s2))"
            by (simp add: ip2)
          from t2 have ib: "ImportPath pkg2 \<in> set (builtPaths (trace s2))"
            by (simp add: ip2)
          from compilePackage_done [OF fr on can c x o2 nt ib]
          obtain e where o': "onceEach X s'"
            and t': "trace s' = trace s2 @ EvTranslate ?ip # e"
            and sube: "set (translatedPaths e) \<subseteq> set (builtPaths e)"
            by (auto simp: ip2)
          from t' t2 have "trace s' = trace s @ EvBuild ?ip # since ?s0 s2 @ EvTranslate ?ip # e"
            by simp
          then have "since s s' = EvBuild ?ip # since ?s0 s2 @ EvTranslate ?ip # e"
            by (rule since_eq)
          with o' sub2 sube show ?thesis by auto
        qed
      qed
    qed
  qed
qed

lemma buildPackage_once:
  assumes "canonical w"
  shows "once X (buildPackage n w)"
proof (induction n)
  case 0
  show ?case by (simp add: once_def)
next
  case (Suc n)
  show ?case
    unfolding once_def
  proof (intro allI impI)
    fix s r wd res s' pkg
    assume "buildPackage (Suc n) w s r wd = (res, s')"
    then have "buildBody n (buildPackage n w) w s r wd = (res, s')" by simp
    moreover assume "deref s r = Some pkg" "ImportPath pkg \<notin> set (builtPaths (trace s))"
      "ImportPath pkg \<in> dom (packages s) \<union> X"
    ultimately show "keeps X s s'"
      using buildPackage_frames Suc assms by (intro buildBody_keeps)
  qed
qed




subsection \<open>Freshness timestamps\<close>

lemma framed_None_deref:
  assumes "framed None s s'" and "deref s r = Some p"
  shows "deref s' r = Some p"
proof (cases r)
  case Entry
  with assms show ?thesis by (auto simp: framed_def deref_def)
next
  case (Cached k)
  with assms(2) have "packages s k = Some p" by (simp add: deref_def)
  with assms(1) have "packages s' k = Some p"
    unfolding framed_def by fastforce
  with Cached show ?thesis by (simp add: deref_def)
qed

lemma framed_other:
  assumes "framed (Some r) s s'" and "packages s k = Some p" and "Cached k \<noteq> r"
  shows "packages s' k = Some p"
  using assms unfolding framed_def by fastforce

lemma slmMono_refl: "slmMono r s s"
  by (simp add: slmMono_def)

lemma slmMono_trans: "slmMono r a b \<Longrightarrow> slmMono r b c \<Longrightarrow> slmMono r a c"
  unfolding slmMono_def by (meson order_trans)

lemma slmMono_framed_None: "framed None s s' \<Longrightarrow> slmMono r s s'"
  unfolding slmMono_def using framed_None_deref by fastforce

lemma slmMono_raise:
  "deref s r = Some pkg \<Longrightarrow> SrcLastModified pkg < v \<Longrightarrow> slmMono r s (modify r (SrcLastModified_update (\<lambda>_. v)) s)"
  by (simp add: slmMono_def)

lemma slmMono_code: "slmMono r s (modify r (JavaScriptCode_update f) s)"
  by (auto simp: slmMono_def)

lemma slmMono_fields [simp]:
  "slmMono r s (typesPackages_update g s)" "slmMono r s (fs_update h s)"
  by (simp_all add: slmMono_def)

text \<open>\<open>fresh\<close> is kept by every step that frames \<open>r\<close> and does not lower its timestamp.\<close>

lemma fresh_step:
  assumes fr: "fresh r s ps" and f: "framed (Some r) s s'" and m: "slmMono r s s'"
  shows "fresh r s' ps"
proof -
  from fr obtain A where A: "deref s r = Some A"
    and imp: "\<forall>p\<in>set ps. \<exists>B. packages s p = Some B \<and> SrcLastModified B \<le> SrcLastModified A"
    unfolding fresh_def by blast
  from m A obtain A' where A': "deref s' r = Some A'" and le: "SrcLastModified A \<le> SrcLastModified A'"
    unfolding slmMono_def by blast
  have "\<exists>B. packages s' p = Some B \<and> SrcLastModified B \<le> SrcLastModified A'" if "p \<in> set ps" for p
  proof (cases "Cached p = r")
    case True
    with A' show ?thesis by (auto simp: deref_def)
  next
    case False
    from imp that obtain B where B: "packages s p = Some B" "SrcLastModified B \<le> SrcLastModified A" by blast
    from f B(1) False have "packages s' p = Some B" by (rule framed_other)
    with B(2) le show ?thesis by auto
  qed
  with A' show ?thesis unfolding fresh_def by blast
qed


lemma fresh_Cons: "fresh r s [p] \<Longrightarrow> fresh r s ps \<Longrightarrow> fresh r s (p # ps)"
  by (auto simp: fresh_def)

lemma fresh_Nil: "deref s r = Some A \<Longrightarrow> fresh r s []"
  by (simp add: fresh_def)

lemma importsLoop_slmMono:
  assumes fr: "frames build" and run: "importsLoop build w s r dir ps = (res, s')"
  shows "slmMono r s s'"
proof (rule importsLoop_rel [where R = "slmMono r" and build = build and w = w and dir = dir
          and r = r and s = s and ps = ps and res = res and s' = s'])
  show "slmMono r a c" if "slmMono r a b" "slmMono r b c" for a b c
    using that by (rule slmMono_trans)
  show "slmMono r s s'" if "getPackageWith build w s key dir wd = (res, s')" for s key wd res s'
    using fr that by (blast intro: slmMono_framed_None getPackageWith_framed)
qed (simp_all add: slmMono_refl slmMono_raise run)

lemma filesLoop_slmMono:
  assumes run: "filesLoop s r dir names = (res, s')"
  shows "slmMono r s s'"
proof (rule filesLoop_rel [where R = "slmMono r" and r = r and s = s and dir = dir
          and names = names and res = res and s' = s'])
  show "slmMono r a c" if "slmMono r a b" "slmMono r b c" for a b c
    using that by (rule slmMono_trans)
qed (simp_all add: slmMono_refl slmMono_raise run)

lemma importsLoop_fresh:
  assumes fr: "frames build"
  shows "importsLoop build w s r dir ps = (Ok (), s') \<Longrightarrow> deref s r = Some A \<Longrightarrow> fresh r s' ps"
proof (induction ps arbitrary: s A)
  case Nil
  then show ?case by (simp add: fresh_Nil)
next
  case (Cons p ps)
  obtain res1 sa where g: "getPackageWith build w s p dir True = (res1, sa)"
    by (cases "getPackageWith build w s p dir True")
  with Cons.prems(1) obtain c where ok: "res1 = Ok c"
    by (cases res1) auto
  with g have c: "c = Cached p" using getPackageWith_Ok by blast
  from Cons.prems(1) g ok obtain cp pkg where cp: "deref sa c = Some cp" and pkg: "deref sa r = Some pkg"
    by (cases "deref sa c"; cases "deref sa r") auto
  let ?sb = "if SrcLastModified pkg < SrcLastModified cp
             then modify r (SrcLastModified_update (\<lambda>_. SrcLastModified cp)) sa else sa"
  from Cons.prems(1) g ok cp pkg have rest: "importsLoop build w ?sb r dir ps = (Ok (), s')"
    by simp
  from cp c have pc: "packages sa p = Some cp" by (simp add: deref_def)
  have fb: "fresh r ?sb [p]"
  proof (cases "SrcLastModified pkg < SrcLastModified cp")
    case True
    with cp pkg c have ne: "Cached p \<noteq> r" by auto
    then have "packages (modify r (SrcLastModified_update (\<lambda>_. SrcLastModified cp)) sa) p = Some cp"
      using pc by (cases r) (auto simp: modify_def)
    with True pkg show ?thesis by (simp add: fresh_def)
  next
    case False
    with pc pkg show ?thesis by (simp add: fresh_def)
  qed
  from fr rest have f: "framed (Some r) ?sb s'" by (rule importsLoop_framed)
  from fr rest have m: "slmMono r ?sb s'" by (rule importsLoop_slmMono)
  have "fresh r s' [p]" by (rule fresh_step [OF fb f m])
  moreover have "fresh r s' ps"
  proof (cases "SrcLastModified pkg < SrcLastModified cp")
    case True
    with rest pkg show ?thesis by (rule_tac Cons.IH [where s = ?sb]) simp_all
  next
    case False
    with rest pkg show ?thesis by (rule_tac Cons.IH [where s = ?sb]) simp_all
  qed
  ultimately show ?case by (rule fresh_Cons)
qed

lemma writeArtifact_slmMono:
  assumes "writeArtifact w s r wd = (res, s')"
  shows "slmMono r s s'"
  using assms
  by (auto simp: writeArtifact_def slmMono_refl split: if_splits option.splits)

lemma loadFromDisk_slmMono:
  assumes "loadFromDisk w s r pkg = (res, s')"
  shows "slmMono r s s'"
proof -
  have m: "slmMono r s (modify r (JavaScriptCode_update f) (typesPackages_update g s))" for f g
    by (auto simp: slmMono_def)
  from assms show ?thesis
    by (auto simp: loadFromDisk_def m slmMono_refl split: if_splits option.splits prod.splits sum.splits)
qed

lemma compilePackage_slmMono:
  assumes fr: "frames build" and run: "compilePackage n build w s r pkg wd = (res, s')"
  shows "slmMono r s s'"
proof -
  obtain tres s3 where t: "translateStep w s pkg = (tres, s3)"
    by (cases "translateStep w s pkg")
  then have m3: "slmMono r s s3"
    by (auto simp: translateStep_def slmMono_def split: prod.splits)
  have fin: "slmMono r s3 s'"
    if "writeArtifact w (modify r (JavaScriptCode_update (\<lambda>_. code)) s4) r wd = (res, s')"
      and "slmMono r s3 s4" for code s4
  proof -
    have "slmMono r s4 (modify r (JavaScriptCode_update (\<lambda>_. code)) s4)" by (rule slmMono_code)
    moreover from that(1) have "slmMono r (modify r (JavaScriptCode_update (\<lambda>_. code)) s4) s'"
      by (rule writeArtifact_slmMono)
    ultimately show ?thesis using that(2) slmMono_trans by blast
  qed
  show ?thesis
  proof (cases tres)
    case (Inl e)
    with run t m3 show ?thesis by (simp add: compilePackage_def)
  next
    case (Inr packageCode)
    show ?thesis
    proof (cases "IsCommand pkg")
      case False
      with run t Inr have "writeArtifact w (modify r (JavaScriptCode_update (\<lambda>_. packageCode)) s3) r wd = (res, s')"
        by (simp add: compilePackage_def)
      then have "slmMono r s3 s'" by (rule fin) (rule slmMono_refl)
      with m3 show ?thesis by (rule slmMono_trans)
    next
      case True
      obtain lres s4 loaded jsCode
        where l: "loadImportsOf n build w (Dir pkg) (s3, {}, trimmedPrelude w @ [newline])
                    (regLookup (typesPackages s3) (ImportPath pkg)) = (lres, s4, loaded, jsCode)"
        by (cases "loadImportsOf n build w (Dir pkg) (s3, {}, trimmedPrelude w @ [newline])
                    (regLookup (typesPackages s3) (ImportPath pkg))") auto
      with fr have m4: "slmMono r s3 s4"
        using loadImportsOf_framed slmMono_framed_None by blast
      show ?thesis
      proof (cases lres)
        case (Ok u)
        with run t Inr True l
        have "writeArtifact w (modify r (JavaScriptCode_update (\<lambda>_. jsCode @ packageCode @ ''main();'')) s4) r wd = (res, s')"
          by (simp add: compilePackage_def)
        then have "slmMono r s3 s'" using m4 by (rule fin)
        with m3 show ?thesis by (rule slmMono_trans)
      next
        case (Fail e)
        with run t Inr True l have "s' = s4" by (simp add: compilePackage_def)
        with m3 m4 show ?thesis using slmMono_trans by blast
      next
        case OutOfFuel
        with run t Inr True l have "s' = s4" by (simp add: compilePackage_def)
        with m3 m4 show ?thesis using slmMono_trans by blast
      qed
    qed
  qed
qed

lemma finishBuild_slmMono:
  assumes "frames build" and "finishBuild n build w s r wd = (res, s')"
  shows "slmMono r s s'"
  using assms
  by (auto simp: finishBuild_def slmMono_refl split: option.splits if_splits
           intro: loadFromDisk_slmMono compilePackage_slmMono)


lemma compilePackage_trace:
  assumes fr: "frames build" and run: "compilePackage n build w s r pkg wd = (res, s')"
  shows "\<exists>e. trace s' = trace s @ EvTranslate (ImportPath pkg) # e"
proof -
  obtain tres reg where tp: "translatePackage w (ImportPath pkg) (Dir pkg) (GoFiles pkg) (typesPackages s) = (tres, reg)"
    by (cases "translatePackage w (ImportPath pkg) (Dir pkg) (GoFiles pkg) (typesPackages s)")
  let ?s3 = "s\<lparr>typesPackages := reg, trace := trace s @ [EvTranslate (ImportPath pkg)]\<rparr>"
  from tp have t: "translateStep w s pkg = (tres, ?s3)"
    by (simp add: translateStep_def)
  show ?thesis
  proof (cases tres)
    case (Inl e)
    with run t have "s' = ?s3" by (simp add: compilePackage_def)
    then show ?thesis by simp
  next
    case (Inr packageCode)
    show ?thesis
    proof (cases "IsCommand pkg")
      case False
      with run t Inr have "writeArtifact w (modify r (JavaScriptCode_update (\<lambda>_. packageCode)) ?s3) r wd = (res, s')"
        by (simp add: compilePackage_def)
      then have "trace s' = trace (modify r (JavaScriptCode_update (\<lambda>_. packageCode)) ?s3)"
        by (rule writeArtifact_trace)
      then show ?thesis by simp
    next
      case True
      obtain lres s4 loaded jsCode
        where l: "loadImportsOf n build w (Dir pkg) (?s3, {}, trimmedPrelude w @ [newline])
                    (regLookup (typesPackages ?s3) (ImportPath pkg)) = (lres, s4, loaded, jsCode)"
        by (cases "loadImportsOf n build w (Dir pkg) (?s3, {}, trimmedPrelude w @ [newline])
                    (regLookup (typesPackages ?s3) (ImportPath pkg))") auto
      from fr l have "framed None ?s3 s4" by (rule loadImportsOf_framed)
      then have tr4: "trace s4 = trace s @ EvTranslate (ImportPath pkg) # since ?s3 s4"
        using framed_trace by fastforce
      show ?thesis
      proof (cases lres)
        case (Ok u)
        with run t Inr True l
        have "writeArtifact w (modify r (JavaScriptCode_update (\<lambda>_. jsCode @ packageCode @ ''main();'')) s4) r wd = (res, s')"
          by (simp add: compilePackage_def)
        then have "trace s' = trace (modify r (JavaScriptCode_update (\<lambda>_. jsCode @ packageCode @ ''main();'')) s4)"
          by (rule writeArtifact_trace)
        with tr4 show ?thesis by simp
      next
        case (Fail e)
        with run t Inr True l have "s' = s4" by (simp add: compilePackage_def)
        with tr4 show ?thesis by simp
      next
        case OutOfFuel
        with run t Inr True l have "s' = s4" by (simp add: compilePackage_def)
        with tr4 show ?thesis by simp
      qed
    qed
  qed
qed

lemma loadFromDisk_same:
  assumes "loadFromDisk w s r pkg = (res, s')" and "deref s r = Some A"
  shows "fs s' = fs s \<and> trace s' = trace s \<and> (\<exists>A'. deref s' r = Some A' \<and> SrcLastModified A' = SrcLastModified A)"
  using assms
  by (auto simp: loadFromDisk_def split: if_splits option.splits prod.splits sum.splits)

lemma finishBuild_reuse:
  assumes fr: "frames build" and run: "finishBuild n build w s r wd = (res, s')"
    and d: "deref s r = Some A"
  shows "(\<exists>e. trace s' = trace s @ EvTranslate (ImportPath A) # e)
       \<or> (fs s' = fs s \<and> (\<exists>f. fs s (PkgObj A) = Some f \<and> SrcLastModified A < ModTime f)
            \<and> (\<exists>A'. deref s' r = Some A' \<and> SrcLastModified A' = SrcLastModified A))"
proof (cases "upToDate s A wd")
  case True
  with run d have "loadFromDisk w s r A = (res, s')" by (simp add: finishBuild_def)
  from loadFromDisk_same [OF this d] True show ?thesis
    by (auto simp: upToDate_def split: option.splits)
next
  case False
  with run d have "compilePackage n build w s r A wd = (res, s')" by (simp add: finishBuild_def)
  with fr show ?thesis using compilePackage_trace by blast
qed

text \<open>
  C2. When \<^verbatim>\<open>buildPackage\<close> has succeeded on a package \<open>A\<close>, every import \<open>p\<close> of \<open>A\<close> is
  cached with a freshness timestamp that is at most that of \<open>A\<close>; and unless \<open>A\<close> was
  translated in this call, its artifact exists and is strictly newer than the freshness
  timestamp of the import. So an artifact of \<open>A\<close> that is not newer than the timestamp of
  an import is not reused.
\<close>

theorem freshness_monotone:
  assumes "buildPackage n w s r writeToDisk = (Ok (), s')"
    and "deref s r = Some A" and "ImportPath A \<noteq> ''unsafe''" and "p \<in> set (Imports A)"
  shows "\<exists>A' B. deref s' r = Some A' \<and> packages s' p = Some B
            \<and> SrcLastModified B \<le> SrcLastModified A'
            \<and> (EvTranslate (ImportPath A) \<notin> set (since s s') \<longrightarrow>
                 (\<exists>f. fs s' (PkgObj A) = Some f \<and> SrcLastModified B < ModTime f))"
proof -
  from assms(1) obtain m where n: "n = Suc m" by (cases n) auto
  let ?build = "buildPackage m w"
  have fr: "frames ?build" by (rule buildPackage_frames)
  from assms(1) n have run: "buildBody m ?build w s r writeToDisk = (Ok (), s')" by simp
  from run assms(2,3) obtain fileInfo where st: "fs s (Args0 w) = Some fileInfo"
    by (cases "fs s (Args0 w)") (auto simp: buildBody_def)
  let ?s0 = "modify r (SrcLastModified_update (\<lambda>_. ModTime fileInfo))
          (s\<lparr>trace := trace s @ [EvBuild (ImportPath A)]\<rparr>)"
  have f0: "framed (Some r) s ?s0"
  proof -
    have "framed (Some r) s (s\<lparr>trace := trace s @ [EvBuild (ImportPath A)]\<rparr>)" by simp
    moreover have "framed (Some r) (s\<lparr>trace := trace s @ [EvBuild (ImportPath A)]\<rparr>) ?s0"
      by (simp add: framed_modify)
    ultimately show ?thesis by (rule framed_trans)
  qed
  from run assms(2,3) st show ?thesis
  proof (cases rule: buildBody_stages)
    case inImports
    then show ?thesis by simp
  next
    case (inFiles s1)
    then show ?thesis by simp
  next
    case (inFinish s1 s2)
    from assms(2) have d0: "deref ?s0 r = Some (A\<lparr>SrcLastModified := ModTime fileInfo\<rparr>)" by simp
    from fr inFinish(1) d0 have fr1: "fresh r s1 (Imports A)" by (rule importsLoop_fresh)
    from fr inFinish(1) have f1: "framed (Some r) ?s0 s1" by (rule importsLoop_framed)
    from inFinish(2) have f2: "framed (Some r) s1 s2" by (rule filesLoop_framed)
    from inFinish(2) have "slmMono r s1 s2" by (rule filesLoop_slmMono)
    with fr1 f2 have fr2: "fresh r s2 (Imports A)" by (rule fresh_step)
    from fr inFinish(3) have f3: "framed (Some r) s2 s'" by (rule finishBuild_framed)
    from fr inFinish(3) have "slmMono r s2 s'" by (rule finishBuild_slmMono)
    with fr2 f3 have "fresh r s' (Imports A)" by (rule fresh_step)
    with assms(4) obtain A' B where A': "deref s' r = Some A'" and B: "packages s' p = Some B"
      and le: "SrcLastModified B \<le> SrcLastModified A'"
      unfolding fresh_def by blast
    from f0 f1 f2 have f02: "framed (Some r) s s2" by (blast intro: framed_trans)
    with assms(2) obtain A2 where d2: "deref s2 r = Some A2" and st2: "sameStatic A A2"
      using framed_deref by blast
    from st2 have same: "ImportPath A2 = ImportPath A" "PkgObj A2 = PkgObj A"
      by (simp_all add: sameStatic_def)
    have "\<exists>f. fs s' (PkgObj A) = Some f \<and> SrcLastModified B < ModTime f"
      if nt: "EvTranslate (ImportPath A) \<notin> set (since s s')"
    proof -
      from finishBuild_reuse [OF fr inFinish(3) d2]
      show ?thesis
      proof
        assume "\<exists>e. trace s' = trace s2 @ EvTranslate (ImportPath A2) # e"
        then obtain e where "trace s' = trace s2 @ EvTranslate (ImportPath A) # e"
          by (auto simp: same)
        with framed_trace [OF f02] have "trace s' = trace s @ (since s s2 @ EvTranslate (ImportPath A) # e)"
          by simp
        then have "since s s' = since s s2 @ EvTranslate (ImportPath A) # e" by (rule since_eq)
        with nt show ?thesis by simp
      next
        assume "fs s' = fs s2 \<and> (\<exists>f. fs s2 (PkgObj A2) = Some f \<and> SrcLastModified A2 < ModTime f)
            \<and> (\<exists>A'. deref s' r = Some A' \<and> SrcLastModified A' = SrcLastModified A2)"
        with A' le same show ?thesis by auto
      qed
    qed
    with A' B le show ?thesis by blast
  qed
qed


theorem freshness_monotone_witness:
  "fst exDiamondRun = Ok () \<and> ''b'' \<in> set (Imports exMain)
   \<and> SrcLastModified (entry (snd exDiamondRun)) = 40
   \<and> map_option SrcLastModified (packages (snd exDiamondRun) ''b'') = Some 40
   \<and> (\<exists>A' B. deref (snd exDiamondRun) Entry = Some A' \<and> packages (snd exDiamondRun) ''b'' = Some B
            \<and> SrcLastModified B \<le> SrcLastModified A')
   \<and> fst exBumpedRun = Ok ()
   \<and> map_option ModTime (fs (snd exBumpedRun) ''main.js'') = Some 100
   \<and> map_option SrcLastModified (packages (snd exBumpedRun) ''b'') = Some 200
   \<and> EvTranslate ''main'' \<in> set (since (newTranslator exMain ((fs (snd exDiamondRun))(''src/d/d.go'' \<mapsto> exSource 200)))
                                         (snd exBumpedRun))"
proof -
  have r1: "fst exDiamondRun = Ok ()" by code_simp
  then have run1: "buildPackage 10 exWorld (newTranslator exMain exFiles) Entry True = (Ok (), snd exDiamondRun)"
    by (simp add: exDiamondRun_def prod_eq_iff)
  have m: "deref (newTranslator exMain files) Entry = Some exMain" for files
    by (simp add: deref_def newTranslator_def)
  have u: "ImportPath exMain \<noteq> ''unsafe''" "''b'' \<in> set (Imports exMain)"
          "ImportPath exMain = ''main''" "PkgObj exMain = ''main.js''"
    by (simp_all add: exMain_def)
  have v1: "SrcLastModified (entry (snd exDiamondRun)) = 40" by code_simp
  have v2: "map_option SrcLastModified (packages (snd exDiamondRun) ''b'') = Some 40" by code_simp
  from freshness_monotone [OF run1 m u(1,2)]
  have first: "\<exists>A' B. deref (snd exDiamondRun) Entry = Some A' \<and> packages (snd exDiamondRun) ''b'' = Some B
            \<and> SrcLastModified B \<le> SrcLastModified A'"
    by blast
  let ?files = "(fs (snd exDiamondRun))(''src/d/d.go'' \<mapsto> exSource 200)"
  have r2: "fst exBumpedRun = Ok ()" by code_simp
  then have run2: "buildPackage 10 exWorld (newTranslator exMain ?files) Entry True = (Ok (), snd exBumpedRun)"
    by (simp add: exBumpedRun_def prod_eq_iff)
  have w1: "map_option ModTime (fs (snd exBumpedRun) ''main.js'') = Some 100" by code_simp
  have w2: "map_option SrcLastModified (packages (snd exBumpedRun) ''b'') = Some 200" by code_simp
  from freshness_monotone [OF run2 m u(1,2)]
  obtain A' B where B: "packages (snd exBumpedRun) ''b'' = Some B"
    and imp: "EvTranslate ''main'' \<notin> set (since (newTranslator exMain ?files) (snd exBumpedRun)) \<longrightarrow>
                 (\<exists>f. fs (snd exBumpedRun) ''main.js'' = Some f \<and> SrcLastModified B < ModTime f)"
    unfolding u(3,4) by blast
  from B w2 have "SrcLastModified B = 200" by simp
  with imp w1 have second: "EvTranslate ''main'' \<in> set (since (newTranslator exMain ?files) (snd exBumpedRun))"
    by auto
  from r1 u(2) v1 v2 first r2 w1 w2 second show ?thesis by (intro conjI)
qed

subsection \<open>The artifact is written last\<close>

lemma quiet_same: "fs s' = fs s \<Longrightarrow> quiet w s s'"
  by (simp add: quiet_def)

lemma quiet_refl [simp]: "quiet w s s"
  by (simp add: quiet_def)

lemma quiet_trans:
  assumes ab: "framed ro a b" "quiet w a b" and bc: "framed ro b c" "quiet w b c"
  shows "quiet w a c"
  unfolding quiet_def
proof (intro allI impI)
  fix path assume ch: "fs c path \<noteq> fs a path"
  from ab(1) have dab: "dom (packages a) \<subseteq> dom (packages b)" by (rule framed_dom)
  from bc(1) have dbc: "dom (packages b) \<subseteq> dom (packages c)" by (rule framed_dom)
  show "\<exists>k dir p. packages a k = None \<and> packages c k \<noteq> None \<and> bc_Import w k dir = Inr p \<and> PkgObj p = path"
  proof (cases "fs b path = fs a path")
    case True
    with ch have "fs c path \<noteq> fs b path" by simp
    with bc(2) obtain k dir p where "packages b k = None" "packages c k \<noteq> None"
      "bc_Import w k dir = Inr p" "PkgObj p = path"
      unfolding quiet_def by blast
    moreover with dab have "packages a k = None" by blast
    ultimately show ?thesis by blast
  next
    case False
    with ab(2) obtain k dir p where "packages a k = None" "packages b k \<noteq> None"
      "bc_Import w k dir = Inr p" "PkgObj p = path"
      unfolding quiet_def by blast
    moreover with dbc have "packages c k \<noteq> None" by blast
    ultimately show ?thesis by blast
  qed
qed

lemma quiet_modify [simp]: "quiet w s (modify r f s)"
  by (simp add: quiet_same)

lemma writesOwnD:
  assumes "writesOwn w build" and "build s r wd = (res, s')" and "deref s r = Some pkg"
  shows "quiet w s s'
        \<or> (res = Ok () \<and> wd \<and> complete w s' r
            \<and> quiet w s (s'\<lparr>fs := (fs s')(PkgObj pkg := fs s (PkgObj pkg))\<rparr>))"
  using assms unfolding writesOwn_def by blast

lemma getPackageWith_quiet:
  assumes fr: "frames build" and wo: "writesOwn w build"
    and run: "getPackageWith build w s key dir wd = (res, s')"
  shows "quiet w s s'"
proof (cases "packages s key")
  case (Some p)
  with run show ?thesis by (simp add: getPackageWith_def)
next
  case None
  show ?thesis
  proof (cases "bc_Import w key dir")
    case (Inl e)
    with None run show ?thesis by (simp add: getPackageWith_def)
  next
    case (Inr otherPkg)
    let ?new = "newGopherPackage otherPkg"
    let ?s1 = "s\<lparr>packages := (packages s)(key \<mapsto> ?new)\<rparr>"
    obtain res1 s1' where b: "build ?s1 (Cached key) True = (res1, s1')"
      by (cases "build ?s1 (Cached key) True")
    with None Inr run have s': "s' = s1'"
      by (cases res1) (simp_all add: getPackageWith_def)
    from fr b have f1: "framed (Some (Cached key)) ?s1 s'"
      unfolding s' by (rule framesD)
    then have "dom (packages ?s1) \<subseteq> dom (packages s')" by (rule framed_dom)
    then have kd: "packages s' key \<noteq> None" by auto
    have po: "PkgObj ?new = PkgObj otherPkg" by (simp add: newGopherPackage_def)
    have d1: "deref ?s1 (Cached key) = Some ?new" by (simp add: deref_def)
    have lift: "\<exists>k dir p. packages s k = None \<and> packages s' k \<noteq> None \<and> bc_Import w k dir = Inr p \<and> PkgObj p = path"
      if "\<exists>k dir p. packages ?s1 k = None \<and> packages s' k \<noteq> None \<and> bc_Import w k dir = Inr p \<and> PkgObj p = path"
      for path
      using that by (auto split: if_splits)
    show ?thesis
      unfolding quiet_def
    proof (intro allI impI)
      fix path assume ch: "fs s' path \<noteq> fs s path"
      from writesOwnD [OF wo b [folded s'] d1]
      show "\<exists>k dir p. packages s k = None \<and> packages s' k \<noteq> None \<and> bc_Import w k dir = Inr p \<and> PkgObj p = path"
      proof
        assume "quiet w ?s1 s'"
        with ch show ?thesis by (intro lift) (simp add: quiet_def)
      next
        assume own: "res1 = Ok () \<and> True \<and> complete w s' (Cached key)
            \<and> quiet w ?s1 (s'\<lparr>fs := (fs s')(PkgObj ?new := fs ?s1 (PkgObj ?new))\<rparr>)"
        show ?thesis
        proof (cases "path = PkgObj otherPkg")
          case True
          with None kd Inr show ?thesis by blast
        next
          case False
          with own ch po show ?thesis by (intro lift) (simp add: quiet_def)
        qed
      qed
    qed
  qed
qed

lemma importsLoop_quiet:
  assumes fr: "frames build" and wo: "writesOwn w build"
    and run: "importsLoop build w s r dir ps = (res, s')"
  shows "quiet w s s'"
proof -
  let ?R = "\<lambda>s s'. framed (Some r) s s' \<and> quiet w s s'"
  have "?R s s'"
  proof (rule importsLoop_rel [where R = ?R and build = build and w = w and dir = dir
          and r = r and s = s and ps = ps and res = res and s' = s'])
    show "?R a c" if "?R a b" "?R b c" for a b c
      using that by (blast intro: framed_trans quiet_trans)
    show "?R s s'" if "getPackageWith build w s key dir wd = (res, s')" for s key wd res s'
      using fr wo that by (blast intro: framed_weaken getPackageWith_framed getPackageWith_quiet)
  qed (simp_all add: framed_modify run)
  then show ?thesis ..
qed

lemma filesLoop_fs:
  "filesLoop s r dir names = (res, s') \<Longrightarrow> fs s' = fs s"
proof (induction names arbitrary: s)
  case Nil
  then show ?case by simp
next
  case (Cons name names)
  then show ?case
    by (auto split: option.splits if_splits)
qed

lemma loadImportsOf_quiet:
  assumes fr: "frames build" and wo: "writesOwn w build"
    and run: "loadImportsOf n build w dir (s, loaded, jsCode) tp = (res, s', loaded', jsCode')"
  shows "quiet w s s'"
proof -
  let ?R = "\<lambda>s s'. framed None s s' \<and> quiet w s s'"
  have "?R (fst (s, loaded, jsCode)) (fst (s', loaded', jsCode'))"
  proof (rule loadImportsOf_rel [where R = ?R and build = build and w = w and dir = dir
          and n = n and tp = tp and res = res])
    show "?R a c" if "?R a b" "?R b c" for a b c
      using that by (blast intro: framed_trans quiet_trans)
    show "?R s s'" if "getPackageWith build w s key dir wd = (res, s')" for s key wd res s'
      using fr wo that by (blast intro: getPackageWith_framed getPackageWith_quiet)
  qed (simp_all add: run)
  then show ?thesis by simp
qed


lemma own_after_quiet:
  assumes sa: "framed ro s a" "quiet w s a" and as': "framed ro a s'"
    and own: "quiet w a s'
        \<or> (res = Ok () \<and> wd \<and> complete w s' r
            \<and> quiet w a (s'\<lparr>fs := (fs s')(P := fs a P)\<rparr>))"
  shows "quiet w s s'
        \<or> (res = Ok () \<and> wd \<and> complete w s' r
            \<and> quiet w s (s'\<lparr>fs := (fs s')(P := fs s P)\<rparr>))"
  using own
proof
  assume "quiet w a s'"
  with sa as' have "quiet w s s'" by (rule quiet_trans)
  then show ?thesis ..
next
  assume o: "res = Ok () \<and> wd \<and> complete w s' r \<and> quiet w a (s'\<lparr>fs := (fs s')(P := fs a P)\<rparr>)"
  from sa(1) have dsa: "dom (packages s) \<subseteq> dom (packages a)" by (rule framed_dom)
  from as' have das: "dom (packages a) \<subseteq> dom (packages s')" by (rule framed_dom)
  have "quiet w s (s'\<lparr>fs := (fs s')(P := fs s P)\<rparr>)"
    unfolding quiet_def
  proof (intro allI impI)
    fix path
    assume ch: "fs (s'\<lparr>fs := (fs s')(P := fs s P)\<rparr>) path \<noteq> fs s path"
    then have np: "path \<noteq> P" and ch': "fs s' path \<noteq> fs s path" by (auto split: if_splits)
    show "\<exists>k dir p. packages s k = None \<and> packages (s'\<lparr>fs := (fs s')(P := fs s P)\<rparr>) k \<noteq> None
             \<and> bc_Import w k dir = Inr p \<and> PkgObj p = path"
    proof (cases "fs a path = fs s path")
      case False
      with sa(2) obtain k dir p where "packages s k = None" "packages a k \<noteq> None"
        "bc_Import w k dir = Inr p" "PkgObj p = path"
        unfolding quiet_def by blast
      moreover with das have "packages s' k \<noteq> None" by blast
      ultimately show ?thesis by auto
    next
      case True
      with ch' np have "fs (s'\<lparr>fs := (fs s')(P := fs a P)\<rparr>) path \<noteq> fs a path" by simp
      with o obtain k dir p where "packages a k = None" "packages s' k \<noteq> None"
        "bc_Import w k dir = Inr p" "PkgObj p = path"
        unfolding quiet_def by fastforce
      moreover with dsa have "packages s k = None" by blast
      ultimately show ?thesis by auto
    qed
  qed
  with o show ?thesis by blast
qed

lemma writeArtifact_own:
  assumes run: "writeArtifact w s r wd = (res, s')" and d: "deref s r = Some pkg"
  shows "quiet w s s'
        \<or> (res = Ok () \<and> wd \<and> complete w s' r
            \<and> quiet w s (s'\<lparr>fs := (fs s')(PkgObj pkg := fs s (PkgObj pkg))\<rparr>))"
proof (cases "fs s' = fs s")
  case True
  then show ?thesis by (simp add: quiet_same)
next
  case False
  with run d have wd: "wd" and ok: "res = Ok ()"
    and s': "s' = s\<lparr>fs := (fs s)(PkgObj pkg \<mapsto>
                   \<lparr>ModTime = writeTime w (PkgObj pkg),
                    contents =
                      (if IsCommand pkg then shebang else [])
                      @ (if \<not> IsCommand pkg
                         then gcexporter_Write w (regLookup (typesPackages s) (ImportPath pkg))
                         else [])
                      @ JavaScriptCode pkg,
                    perm = (case fs s (PkgObj pkg) of
                              Some f \<Rightarrow> perm f
                            | None \<Rightarrow> if IsCommand pkg then 511 else 438)\<rparr>)\<rparr>"
    by (auto simp: writeArtifact_def split: if_splits option.splits)
  have "complete w s' r"
    unfolding complete_def using d by (subst s', subst s') (auto simp: s')
  moreover have "quiet w s (s'\<lparr>fs := (fs s')(PkgObj pkg := fs s (PkgObj pkg))\<rparr>)"
    by (rule quiet_same) (simp add: s')
  ultimately show ?thesis using wd ok by blast
qed

lemma compilePackage_own:
  assumes fr: "frames build" and wo: "writesOwn w build"
    and run: "compilePackage n build w s r pkg wd = (res, s')" and d: "deref s r = Some pkg"
  shows "quiet w s s'
        \<or> (res = Ok () \<and> wd \<and> complete w s' r
            \<and> quiet w s (s'\<lparr>fs := (fs s')(PkgObj pkg := fs s (PkgObj pkg))\<rparr>))"
proof -
  obtain tres reg where tp: "translatePackage w (ImportPath pkg) (Dir pkg) (GoFiles pkg) (typesPackages s) = (tres, reg)"
    by (cases "translatePackage w (ImportPath pkg) (Dir pkg) (GoFiles pkg) (typesPackages s)")
  let ?s3 = "s\<lparr>typesPackages := reg, trace := trace s @ [EvTranslate (ImportPath pkg)]\<rparr>"
  from tp have t: "translateStep w s pkg = (tres, ?s3)"
    by (simp add: translateStep_def)
  have f3: "framed (Some r) s ?s3" by simp
  have q3: "quiet w s ?s3" by (simp add: quiet_same)
  from d have d3: "deref ?s3 r = Some pkg" by (cases r) (simp_all add: deref_def)
  have fin: ?thesis
    if wr: "writeArtifact w (modify r (JavaScriptCode_update (\<lambda>_. code)) s4) r wd = (res, s')"
      and f4: "framed (Some r) s s4" and q4: "quiet w s s4" and d4: "deref s4 r = Some pkg" for code s4
  proof -
    let ?s4m = "modify r (JavaScriptCode_update (\<lambda>_. code)) s4"
    have fm: "framed (Some r) s4 ?s4m" by (simp add: framed_modify)
    with f4 have f: "framed (Some r) s ?s4m" by (rule framed_trans)
    from f4 q4 fm have q: "quiet w s ?s4m" by (rule quiet_trans) simp
    from d4 have dm: "deref ?s4m r = Some (pkg\<lparr>JavaScriptCode := code\<rparr>)" by simp
    from wr have fw: "framed (Some r) ?s4m s'" by (rule writeArtifact_framed)
    from writeArtifact_own [OF wr dm]
    have "quiet w ?s4m s'
        \<or> (res = Ok () \<and> wd \<and> complete w s' r
            \<and> quiet w ?s4m (s'\<lparr>fs := (fs s')(PkgObj pkg := fs ?s4m (PkgObj pkg))\<rparr>))"
      by simp
    with f q fw show ?thesis by (rule own_after_quiet)
  qed
  show ?thesis
  proof (cases tres)
    case (Inl e)
    with run t have "s' = ?s3" by (simp add: compilePackage_def)
    with q3 show ?thesis by simp
  next
    case (Inr packageCode)
    show ?thesis
    proof (cases "IsCommand pkg")
      case False
      with run t Inr have "writeArtifact w (modify r (JavaScriptCode_update (\<lambda>_. packageCode)) ?s3) r wd = (res, s')"
        by (simp add: compilePackage_def)
      then show ?thesis using f3 q3 d3 by (rule fin)
    next
      case True
      obtain lres s4 loaded jsCode
        where l: "loadImportsOf n build w (Dir pkg) (?s3, {}, trimmedPrelude w @ [newline])
                    (regLookup (typesPackages ?s3) (ImportPath pkg)) = (lres, s4, loaded, jsCode)"
        by (cases "loadImportsOf n build w (Dir pkg) (?s3, {}, trimmedPrelude w @ [newline])
                    (regLookup (typesPackages ?s3) (ImportPath pkg))") auto
      from fr l have f34n: "framed None ?s3 s4" by (rule loadImportsOf_framed)
      then have f34: "framed (Some r) ?s3 s4" by (rule framed_weaken)
      from fr wo l have q34: "quiet w ?s3 s4" by (rule loadImportsOf_quiet)
      from f3 f34 have f4: "framed (Some r) s s4" by (rule framed_trans)
      from f3 q3 f34 q34 have q4: "quiet w s s4" by (rule quiet_trans)
      from f34n d3 have d4: "deref s4 r = Some pkg" by (rule framed_None_deref)
      show ?thesis
      proof (cases lres)
        case (Ok u)
        with run t Inr True l
        have "writeArtifact w (modify r (JavaScriptCode_update (\<lambda>_. jsCode @ packageCode @ ''main();'')) s4) r wd = (res, s')"
          by (simp add: compilePackage_def)
        then show ?thesis using f4 q4 d4 by (rule fin)
      next
        case (Fail e)
        with run t Inr True l have "s' = s4" by (simp add: compilePackage_def)
        with q4 show ?thesis by simp
      next
        case OutOfFuel
        with run t Inr True l have "s' = s4" by (simp add: compilePackage_def)
        with q4 show ?thesis by simp
      qed
    qed
  qed
qed

lemma finishBuild_own:
  assumes fr: "frames build" and wo: "writesOwn w build"
    and run: "finishBuild n build w s r wd = (res, s')" and d: "deref s r = Some pkg"
  shows "quiet w s s'
        \<or> (res = Ok () \<and> wd \<and> complete w s' r
            \<and> quiet w s (s'\<lparr>fs := (fs s')(PkgObj pkg := fs s (PkgObj pkg))\<rparr>))"
proof (cases "upToDate s pkg wd")
  case True
  with run d have "loadFromDisk w s r pkg = (res, s')" by (simp add: finishBuild_def)
  from loadFromDisk_same [OF this d] show ?thesis by (simp add: quiet_same)
next
  case False
  with run d have "compilePackage n build w s r pkg wd = (res, s')" by (simp add: finishBuild_def)
  with fr wo show ?thesis using d by (rule compilePackage_own)
qed

lemma buildBody_own:
  assumes fr: "frames build" and wo: "writesOwn w build"
    and run: "buildBody n build w s r wd = (res, s')" and d: "deref s r = Some pkg"
  shows "quiet w s s'
        \<or> (res = Ok () \<and> wd \<and> complete w s' r
            \<and> quiet w s (s'\<lparr>fs := (fs s')(PkgObj pkg := fs s (PkgObj pkg))\<rparr>))"
proof (cases "ImportPath pkg = ''unsafe''")
  case True
  with run d have "fs s' = fs s" by (auto simp: buildBody_def)
  then show ?thesis by (simp add: quiet_same)
next
  case False
  show ?thesis
  proof (cases "fs s (Args0 w)")
    case None
    with run d False have "fs s' = fs s" by (auto simp: buildBody_def)
    then show ?thesis by (simp add: quiet_same)
  next
    case (Some fileInfo)
    let ?sB = "s\<lparr>trace := trace s @ [EvBuild (ImportPath pkg)]\<rparr>"
    let ?s0 = "modify r (SrcLastModified_update (\<lambda>_. ModTime fileInfo)) ?sB"
    have f0: "framed (Some r) s ?s0"
    proof -
      have "framed (Some r) s ?sB" by simp
      moreover have "framed (Some r) ?sB ?s0" by (simp add: framed_modify)
      ultimately show ?thesis by (rule framed_trans)
    qed
    have q0: "quiet w s ?s0" by (simp add: quiet_same)
    from run d False Some show ?thesis
    proof (cases rule: buildBody_stages)
      case inImports
      from fr inImports(1) have "framed (Some r) ?s0 s'" by (rule importsLoop_framed)
      moreover from fr wo inImports(1) have "quiet w ?s0 s'" by (rule importsLoop_quiet)
      ultimately have "quiet w s s'" using f0 q0 by (blast intro: quiet_trans)
      then show ?thesis ..
    next
      case (inFiles s1)
      from fr inFiles(1) have f1: "framed (Some r) ?s0 s1" by (rule importsLoop_framed)
      from fr wo inFiles(1) have q1: "quiet w ?s0 s1" by (rule importsLoop_quiet)
      from inFiles(2) have f2: "framed (Some r) s1 s'" by (rule filesLoop_framed)
      from inFiles(2) have q2: "quiet w s1 s'" by (simp add: quiet_same filesLoop_fs)
      from f0 q0 f1 q1 have "quiet w s s1" by (rule quiet_trans)
      moreover from f0 f1 have "framed (Some r) s s1" by (rule framed_trans)
      ultimately have "quiet w s s'" using f2 q2 by (blast intro: quiet_trans)
      then show ?thesis ..
    next
      case (inFinish s1 s2)
      from fr inFinish(1) have f1: "framed (Some r) ?s0 s1" by (rule importsLoop_framed)
      from fr wo inFinish(1) have q1: "quiet w ?s0 s1" by (rule importsLoop_quiet)
      from inFinish(2) have f2: "framed (Some r) s1 s2" by (rule filesLoop_framed)
      from inFinish(2) have q2: "quiet w s1 s2" by (simp add: quiet_same filesLoop_fs)
      from f0 q0 f1 q1 have q01: "quiet w s s1" by (rule quiet_trans)
      from f0 f1 have f01: "framed (Some r) s s1" by (rule framed_trans)
      from f01 q01 f2 q2 have q02: "quiet w s s2" by (rule quiet_trans)
      from f01 f2 have f02: "framed (Some r) s s2" by (rule framed_trans)
      from f02 d obtain pkg2 where d2: "deref s2 r = Some pkg2" and st: "sameStatic pkg pkg2"
        using framed_deref by blast
      from st have po: "PkgObj pkg2 = PkgObj pkg" by (simp add: sameStatic_def)
      from fr inFinish(3) have f3: "framed (Some r) s2 s'" by (rule finishBuild_framed)
      from finishBuild_own [OF fr wo inFinish(3) d2]
      have "quiet w s2 s'
        \<or> (res = Ok () \<and> wd \<and> complete w s' r
            \<and> quiet w s2 (s'\<lparr>fs := (fs s')(PkgObj pkg := fs s2 (PkgObj pkg))\<rparr>))"
        by (simp add: po)
      with f02 q02 f3 show ?thesis by (rule own_after_quiet)
    qed
  qed
qed

lemma buildPackage_writesOwn: "writesOwn w (buildPackage n w)"
proof (induction n)
  case 0
  show ?case by (simp add: writesOwn_def quiet_same)
next
  case (Suc n)
  show ?case
    unfolding writesOwn_def
  proof (intro allI impI)
    fix s r wd res s' pkg
    assume "buildPackage (Suc n) w s r wd = (res, s')"
    then have "buildBody n (buildPackage n w) w s r wd = (res, s')" by simp
    moreover assume "deref s r = Some pkg"
    ultimately show "quiet w s s'
        \<or> (res = Ok () \<and> wd \<and> complete w s' r
            \<and> quiet w s (s'\<lparr>fs := (fs s')(PkgObj pkg := fs s (PkgObj pkg))\<rparr>))"
      using buildPackage_frames Suc by (rule_tac buildBody_own)
  qed
qed




subsection \<open>What loadImportsOf appends\<close>

lemma blockText_simps [simp]:
  "blockText w [] = []"
  "blockText w ((imp, code) # bs) = moduleBlock w (typesPkg w imp) code @ blockText w bs"
  "blockText w (as @ bs) = blockText w as @ blockText w bs"
  by (simp_all add: blockText_def)

lemma ordered_append:
  "ordered w E (as @ bs) = (ordered w E as \<and> ordered w (E \<union> set (map fst as)) bs)"
proof (induction as arbitrary: E)
  case Nil
  show ?case by simp
next
  case (Cons a as)
  obtain imp code where a: "a = (imp, code)" by (cases a)
  have "insert imp E \<union> set (map fst as) = E \<union> set (map fst (a # as))"
    by (auto simp: a)
  then show ?case
    using Cons.IH [of "insert imp E"] by (auto simp: a)
qed

lemma shape_nil: "shape w L js [] L js"
  by (simp add: shape_def)

lemma shape_visit:
  assumes s1: "shape w (insert imp L) js bs1 L1 js1"
    and s2: "shape w L1 (js1 @ moduleBlock w (typesPkg w imp) code) bs2 L' js'"
    and nl: "imp \<notin> L" and ne: "\<not> excluded (Path (typesPkg w imp))"
  shows "shape w L js (bs1 @ (imp, code) # bs2) L' js'"
proof -
  from s1 have a: "js1 = js @ blockText w bs1" "L1 = insert imp L \<union> set (map fst bs1)"
    "set (map fst bs1) \<inter> insert imp L = {}" "distinct (map fst bs1)"
    "\<forall>i\<in>set (map fst bs1). \<not> excluded (Path (typesPkg w i))"
    by (simp_all add: shape_def)
  from s2 have b: "js' = (js1 @ moduleBlock w (typesPkg w imp) code) @ blockText w bs2"
    "L' = L1 \<union> set (map fst bs2)" "set (map fst bs2) \<inter> L1 = {}" "distinct (map fst bs2)"
    "\<forall>i\<in>set (map fst bs2). \<not> excluded (Path (typesPkg w i))"
    by (simp_all add: shape_def)
  have "js' = js @ blockText w (bs1 @ (imp, code) # bs2)"
    using a(1) b(1) by simp
  moreover have "L' = L \<union> set (map fst (bs1 @ (imp, code) # bs2))"
    using a(2) b(2) by auto
  moreover have "set (map fst (bs1 @ (imp, code) # bs2)) \<inter> L = {}"
    using a(2,3) b(3) nl by auto
  moreover have "distinct (map fst (bs1 @ (imp, code) # bs2))"
    using a(2,3,4) b(3,4) by auto
  moreover have "\<forall>i\<in>set (map fst (bs1 @ (imp, code) # bs2)). \<not> excluded (Path (typesPkg w i))"
    using a(5) b(5) ne by auto
  ultimately show ?thesis unfolding shape_def by blast
qed

lemma inOrder_nil: "inOrder w rank bound L E [] []"
  by (simp add: inOrder_def covered_def)

lemma inOrder_skip:
  assumes io: "inOrder w rank bound L E rest bs"
    and sk: "excluded (Path (typesPkg w imp)) \<or> imp \<in> L"
  shows "inOrder w rank bound L E (imp # rest) bs"
  unfolding inOrder_def
proof (intro impI)
  assume pre: "ranked w rank \<and> E \<subseteq> L \<and> (\<forall>x\<in>L - E. bound \<le> rank x) \<and> (\<forall>i\<in>set (imp # rest). rank i < bound)"
  with io have o: "ordered w E bs" and c: "covered w (E \<union> set (map fst bs)) rest"
    by (simp_all add: inOrder_def)
  have "excluded (Path (typesPkg w imp)) \<or> imp \<in> E"
  proof (cases "imp \<in> L - E")
    case True
    with pre have "bound \<le> rank imp" by blast
    moreover from pre have "rank imp < bound" by simp
    ultimately show ?thesis by simp
  next
    case False
    with sk show ?thesis by blast
  qed
  with o c show "ordered w E bs \<and> covered w (E \<union> set (map fst bs)) (imp # rest)"
    by (auto simp: covered_def)
qed

lemma inOrder_visit:
  assumes i1: "inOrder w rank (rank imp) (insert imp L) E (TypeImports (typesPkg w imp)) bs1"
    and i2: "inOrder w rank bound L1 (insert imp (E \<union> set (map fst bs1))) rest bs2"
    and L1: "L1 = insert imp L \<union> set (map fst bs1)"
    and nl: "imp \<notin> L"
  shows "inOrder w rank bound L E (imp # rest) (bs1 @ (imp, code) # bs2)"
  unfolding inOrder_def
proof (intro impI)
  assume pre: "ranked w rank \<and> E \<subseteq> L \<and> (\<forall>x\<in>L - E. bound \<le> rank x) \<and> (\<forall>i\<in>set (imp # rest). rank i < bound)"
  then have rk: "ranked w rank" and sub: "E \<subseteq> L" and st: "\<forall>x\<in>L - E. bound \<le> rank x"
    and ri: "rank imp < bound" and rr: "\<forall>i\<in>set rest. rank i < bound"
    by simp_all
  have "\<forall>x\<in>insert imp L - E. rank imp \<le> rank x"
  proof
    fix x assume "x \<in> insert imp L - E"
    then consider "x = imp" | "x \<in> L - E" by blast
    then show "rank imp \<le> rank x"
    proof cases
      case 1
      then show ?thesis by simp
    next
      case 2
      with st have "bound \<le> rank x" by blast
      with ri show ?thesis by simp
    qed
  qed
  moreover from rk have "\<forall>dep\<in>set (TypeImports (typesPkg w imp)). rank dep < rank imp"
    by (simp add: ranked_def)
  moreover from sub have "E \<subseteq> insert imp L" by blast
  ultimately have o1: "ordered w E bs1"
    and c1: "covered w (E \<union> set (map fst bs1)) (TypeImports (typesPkg w imp))"
    using i1 rk by (simp_all add: inOrder_def)
  let ?E2 = "insert imp (E \<union> set (map fst bs1))"
  have "?E2 \<subseteq> L1" using sub L1 by blast
  moreover have "\<forall>x\<in>L1 - ?E2. bound \<le> rank x"
    using st L1 by blast
  ultimately have o2: "ordered w ?E2 bs2" and c2: "covered w (?E2 \<union> set (map fst bs2)) rest"
    using i2 rk rr by (simp_all add: inOrder_def)
  from c1 have here: "ordered w (E \<union> set (map fst bs1)) [(imp, code)]"
    by (simp add: covered_def)
  have e: "insert imp (E \<union> set (map fst bs1)) = E \<union> set (map fst bs1) \<union> set (map fst [(imp, code)])"
    by simp
  have "ordered w E (bs1 @ (imp, code) # bs2)"
    using o1 here o2 by (simp add: ordered_append)
  moreover have "covered w (E \<union> set (map fst (bs1 @ (imp, code) # bs2))) (imp # rest)"
    using c2 by (auto simp: covered_def)
  ultimately show "ordered w E (bs1 @ (imp, code) # bs2)
                 \<and> covered w (E \<union> set (map fst (bs1 @ (imp, code) # bs2))) (imp # rest)" ..
qed

lemma loadLoop_bundle_step:
  assumes rec: "\<And>s L js t s' L' js'.
      loadImportsOf n build w dir (s, L, js) (Some t) = (Ok (), s', L', js') \<Longrightarrow>
        \<exists>bs. shape w L js bs L' js' \<and> (\<forall>rank E. inOrder w rank (rank t) L E (TypeImports (typesPkg w t)) bs)"
  shows "loadLoop n build w dir (s, L, js) imps = (Ok (), s', L', js') \<Longrightarrow>
           \<exists>bs. shape w L js bs L' js' \<and> (\<forall>rank E bound. inOrder w rank bound L E imps bs)"
proof (induction imps arbitrary: s L js)
  case Nil
  then show ?case
    using shape_nil inOrder_nil by fastforce
next
  case (Cons imp rest)
  show ?case
  proof (cases "excluded (Path (typesPkg w imp)) \<or> imp \<in> L")
    case True
    with Cons.prems have "loadLoop n build w dir (s, L, js) rest = (Ok (), s', L', js')"
      by (simp add: loadLoop_skip)
    then obtain bs where "shape w L js bs L' js'" and "\<forall>rank E bound. inOrder w rank bound L E rest bs"
      using Cons.IH by blast
    with True show ?thesis
      using inOrder_skip by blast
  next
    case False
    then have ne: "\<not> excluded (Path (typesPkg w imp))" and nl: "imp \<notin> L" by auto
    note run = Cons.prems [unfolded loadLoop_visit [OF ne nl]]
    obtain res1 s1 L1 js1
      where l: "loadImportsOf n build w dir (s, insert imp L, js) (Some imp) = (res1, s1, L1, js1)"
      by (cases "loadImportsOf n build w dir (s, insert imp L, js) (Some imp)") auto
    with run have ok1: "res1 = Ok ()" by (cases res1) auto
    obtain res2 s2 where g: "getPackageWith build w s1 (Path (typesPkg w imp)) dir False = (res2, s2)"
      by (cases "getPackageWith build w s1 (Path (typesPkg w imp)) dir False")
    with run l ok1 obtain c where ok2: "res2 = Ok c" by (cases res2) auto
    from run l ok1 g ok2 obtain gopherPkg where d: "deref s2 c = Some gopherPkg"
      by (cases "deref s2 c") auto
    let ?code = "JavaScriptCode gopherPkg"
    from run l ok1 g ok2 d
    have r: "loadLoop n build w dir (s2, L1, js1 @ moduleBlock w (typesPkg w imp) ?code) rest = (Ok (), s', L', js')"
      by simp
    from rec [OF l [unfolded ok1]] obtain bs1 where s1: "shape w (insert imp L) js bs1 L1 js1"
      and i1: "\<forall>rank E. inOrder w rank (rank imp) (insert imp L) E (TypeImports (typesPkg w imp)) bs1"
      by blast
    from Cons.IH [OF r] obtain bs2
      where s2: "shape w L1 (js1 @ moduleBlock w (typesPkg w imp) ?code) bs2 L' js'"
      and i2: "\<forall>rank E bound. inOrder w rank bound L1 E rest bs2"
      by blast
    from s1 have L1: "L1 = insert imp L \<union> set (map fst bs1)" by (simp add: shape_def)
    have "shape w L js (bs1 @ (imp, ?code) # bs2) L' js'"
      using s1 s2 nl ne by (rule shape_visit)
    moreover have "inOrder w rank bound L E (imp # rest) (bs1 @ (imp, ?code) # bs2)" for rank E bound
      using i1 i2 L1 nl by (intro inOrder_visit) auto
    ultimately show ?thesis by blast
  qed
qed

lemma loadImportsOf_bundle:
  "loadImportsOf n build w dir (s, L, js) (Some t) = (Ok (), s', L', js') \<Longrightarrow>
     \<exists>bs. shape w L js bs L' js' \<and> (\<forall>rank E. inOrder w rank (rank t) L E (TypeImports (typesPkg w t)) bs)"
proof (induction n arbitrary: s L js t s' L' js')
  case 0
  then show ?case by simp
next
  case (Suc n)
  from Suc.prems have "loadLoop n build w dir (s, L, js) (TypeImports (typesPkg w t)) = (Ok (), s', L', js')"
    by simp
  then have "\<exists>bs. shape w L js bs L' js' \<and> (\<forall>rank E bound. inOrder w rank bound L E (TypeImports (typesPkg w t)) bs)"
  proof (rule loadLoop_bundle_step [where n = n and build = build and w = w and dir = dir, rotated])
    fix s L js t s' L' js'
    assume "loadImportsOf n build w dir (s, L, js) (Some t) = (Ok (), s', L', js')"
    then show "\<exists>bs. shape w L js bs L' js' \<and> (\<forall>rank E. inOrder w rank (rank t) L E (TypeImports (typesPkg w t)) bs)"
      by (rule Suc.IH)
  qed
  then show ?case by blast
qed

subsection \<open>The assembled bundle\<close>

lemma writeArtifact_deref:
  "writeArtifact w s r wd = (res, s') \<Longrightarrow> deref s' r = deref s r"
  by (auto simp: writeArtifact_def split: if_splits option.splits)

lemma writeArtifact_Ok_deref:
  "writeArtifact w s r wd = (Ok (), s') \<Longrightarrow> \<exists>pkg. deref s r = Some pkg"
  by (auto simp: writeArtifact_def split: if_splits option.splits)

lemma compilePackage_bundle:
  assumes run: "compilePackage n build w s r pkg wd = (Ok (), s')" and cmd: "IsCommand pkg"
  shows "\<exists>root bs packageCode pkg'.
           fst (translateStep w s pkg) = Inr packageCode
         \<and> regLookup (typesPackages (snd (translateStep w s pkg))) (ImportPath pkg) = Some root
         \<and> deref s' r = Some pkg'
         \<and> JavaScriptCode pkg' = (trimmedPrelude w @ [newline]) @ blockText w bs @ packageCode @ ''main();''
         \<and> shape w {} (trimmedPrelude w @ [newline]) bs (set (map fst bs))
                    ((trimmedPrelude w @ [newline]) @ blockText w bs)
         \<and> (\<forall>rank. inOrder w rank (rank root) {} {} (TypeImports (typesPkg w root)) bs)"
proof -
  obtain tres s3 where t: "translateStep w s pkg = (tres, s3)"
    by (cases "translateStep w s pkg")
  with run obtain packageCode where tr: "tres = Inr packageCode"
    by (cases tres) (auto simp: compilePackage_def)
  obtain lres s4 loaded jsCode
    where l: "loadImportsOf n build w (Dir pkg) (s3, {}, trimmedPrelude w @ [newline])
                (regLookup (typesPackages s3) (ImportPath pkg)) = (lres, s4, loaded, jsCode)"
    by (cases "loadImportsOf n build w (Dir pkg) (s3, {}, trimmedPrelude w @ [newline])
                (regLookup (typesPackages s3) (ImportPath pkg))") auto
  with run t tr cmd have ok: "lres = Ok ()"
    by (cases lres) (auto simp: compilePackage_def)
  from l ok obtain root where root: "regLookup (typesPackages s3) (ImportPath pkg) = Some root"
    by (cases n; cases "regLookup (typesPackages s3) (ImportPath pkg)") auto
  let ?code = "jsCode @ packageCode @ ''main();''"
  from run t tr cmd l ok
  have wr: "writeArtifact w (modify r (JavaScriptCode_update (\<lambda>_. ?code)) s4) r wd = (Ok (), s')"
    by (simp add: compilePackage_def)
  then obtain pm where "deref (modify r (JavaScriptCode_update (\<lambda>_. ?code)) s4) r = Some pm"
    using writeArtifact_Ok_deref by blast
  moreover then have "JavaScriptCode pm = ?code" by auto
  moreover from wr have "deref s' r = deref (modify r (JavaScriptCode_update (\<lambda>_. ?code)) s4) r"
    by (rule writeArtifact_deref)
  ultimately have d': "deref s' r = Some pm" and js: "JavaScriptCode pm = ?code" by simp_all
  from l ok root
  have "loadImportsOf n build w (Dir pkg) (s3, {}, trimmedPrelude w @ [newline]) (Some root)
          = (Ok (), s4, loaded, jsCode)"
    by simp
  from loadImportsOf_bundle [OF this]
  obtain bs where sh: "shape w {} (trimmedPrelude w @ [newline]) bs loaded jsCode"
    and io: "\<forall>rank E. inOrder w rank (rank root) {} E (TypeImports (typesPkg w root)) bs"
    by blast
  from sh have j: "jsCode = (trimmedPrelude w @ [newline]) @ blockText w bs" and lo: "loaded = set (map fst bs)"
    by (simp_all add: shape_def)
  from t tr root d' js j sh io lo show ?thesis
    by auto
qed


text \<open>
  C5, as amended. \<open>compilePackage\<close> is lines 240-317 of \<^verbatim>\<open>buildPackage\<close>. When it succeeds
  for an executable, the payload stored in the descriptor is the prelude, a sequence of
  module blocks, the executable's own code and \<^verbatim>\<open>main();\<close>. No package has two blocks and
  no package named \<^verbatim>\<open>unsafe\<close>, \<^verbatim>\<open>reflect\<close> or \<^verbatim>\<open>go/doc\<close> has one. Every import of the
  executable's type interface other than these three has a block, and every such import of
  a package that has a block has its own block earlier in the text (the import graph of
  the type interfaces being acyclic). Packages reached only through one of the three get
  no block: the traversal does not descend into them.
\<close>

theorem bundle_order:
  assumes "compilePackage n build w s r pkg writeToDisk = (Ok (), s')" and "IsCommand pkg"
    and "ranked w rank"
  shows "\<exists>root bs packageCode pkg'.
           fst (translateStep w s pkg) = Inr packageCode
         \<and> regLookup (typesPackages (snd (translateStep w s pkg))) (ImportPath pkg) = Some root
         \<and> deref s' r = Some pkg'
         \<and> JavaScriptCode pkg' = (trimmedPrelude w @ [newline]) @ blockText w bs @ packageCode @ ''main();''
         \<and> distinct (map fst bs)
         \<and> (\<forall>imp\<in>set (map fst bs). \<not> excluded (Path (typesPkg w imp)))
         \<and> ordered w {} bs
         \<and> covered w (set (map fst bs)) (TypeImports (typesPkg w root))"
proof -
  from compilePackage_bundle [OF assms(1,2)]
  obtain root bs packageCode pkg' where
    a: "fst (translateStep w s pkg) = Inr packageCode"
       "regLookup (typesPackages (snd (translateStep w s pkg))) (ImportPath pkg) = Some root"
       "deref s' r = Some pkg'"
       "JavaScriptCode pkg' = (trimmedPrelude w @ [newline]) @ blockText w bs @ packageCode @ ''main();''"
    and sh: "shape w {} (trimmedPrelude w @ [newline]) bs (set (map fst bs))
                    ((trimmedPrelude w @ [newline]) @ blockText w bs)"
    and io: "\<forall>rank. inOrder w rank (rank root) {} {} (TypeImports (typesPkg w root)) bs"
    by blast
  from sh have d: "distinct (map fst bs)" and ne: "\<forall>imp\<in>set (map fst bs). \<not> excluded (Path (typesPkg w imp))"
    by (simp_all add: shape_def)
  from assms(3) have "\<forall>imp\<in>set (TypeImports (typesPkg w root)). rank imp < rank root"
    by (simp add: ranked_def)
  with io assms(3) have "ordered w {} bs \<and> covered w ({} \<union> set (map fst bs)) (TypeImports (typesPkg w root))"
    unfolding inOrder_def by blast
  then have "ordered w {} bs" and "covered w (set (map fst bs)) (TypeImports (typesPkg w root))"
    by simp_all
  with a d ne show ?thesis by blast
qed

theorem bundle_order_witness:
  "fst exBundle = Ok () \<and> IsCommand exMain \<and> ranked exWorld exRank
   \<and> (\<exists>root bs packageCode pkg'.
           fst (translateStep exWorld (newTranslator exMain exFiles) exMain) = Inr packageCode
         \<and> regLookup (typesPackages (snd (translateStep exWorld (newTranslator exMain exFiles) exMain)))
                     (ImportPath exMain) = Some root
         \<and> deref (snd exBundle) Entry = Some pkg'
         \<and> JavaScriptCode pkg' = (trimmedPrelude exWorld @ [newline]) @ blockText exWorld bs @ packageCode @ ''main();''
         \<and> distinct (map fst bs)
         \<and> (\<forall>imp\<in>set (map fst bs). \<not> excluded (Path (typesPkg exWorld imp)))
         \<and> ordered exWorld {} bs
         \<and> covered exWorld (set (map fst bs)) (TypeImports (typesPkg exWorld root)))
   \<and> JavaScriptCode (entry (snd exBundle))
        = ''prelude'' @ [newline]
          @ blockText exWorld [(3, ''code of d;''), (1, ''code of b;''), (2, ''code of c;'')]
          @ ''code of main;'' @ ''main();''
   \<and> JavaScriptCode (entry (snd exDiamondRun)) = JavaScriptCode (entry (snd exBundle))"
proof -
  have ok: "fst exBundle = Ok ()" by code_simp
  then have run: "compilePackage 9 (buildPackage 9 exWorld) exWorld (newTranslator exMain exFiles) Entry exMain True
                    = (Ok (), snd exBundle)"
    by (simp add: exBundle_def prod_eq_iff)
  have cmd: "IsCommand exMain" by (simp add: IsCommand_def exMain_def)
  have rk: "ranked exWorld exRank"
    by (auto simp: ranked_def exWorld_def exTypes_def exRank_def split: if_splits)
  note inst = bundle_order [OF run cmd rk]
  have bt: "JavaScriptCode (entry (snd exBundle))
        = ''prelude'' @ [newline]
          @ blockText exWorld [(3, ''code of d;''), (1, ''code of b;''), (2, ''code of c;'')]
          @ ''code of main;'' @ ''main();''"
    by code_simp
  have same: "JavaScriptCode (entry (snd exDiamondRun)) = JavaScriptCode (entry (snd exBundle))"
    by code_simp
  show ?thesis
    apply (rule conjI [OF ok])
    apply (rule conjI [OF cmd])
    apply (rule conjI [OF rk])
    apply (rule conjI [OF inst])
    apply (rule conjI [OF bt])
    apply (rule same)
    done
qed

theorem bundle_reflect_counterexample:
  "fst exReflectRun = Ok ()
   \<and> regLookup (typesPackages (snd exReflectRun)) ''main'' = Some 0
   \<and> TypeImports (typesPkg exWorldReflect 0) = [1]
   \<and> Path (typesPkg exWorldReflect 1) = ''reflect''
   \<and> TypeImports (typesPkg exWorldReflect 1) = [2]
   \<and> Path (typesPkg exWorldReflect 2) = ''strconv''
   \<and> \<not> excluded (Path (typesPkg exWorldReflect 2))
   \<and> EvTranslate ''strconv'' \<in> set (trace (snd exReflectRun))
   \<and> JavaScriptCode (entry (snd exReflectRun)) = ''prelude'' @ [newline] @ ''code of main;'' @ ''main();''"
proof -
  have a: "fst exReflectRun = Ok ()" by code_simp
  have b: "regLookup (typesPackages (snd exReflectRun)) ''main'' = Some 0" by code_simp
  have c: "TypeImports (typesPkg exWorldReflect 0) = [1]" by (simp add: exWorldReflect_def)
  have d: "Path (typesPkg exWorldReflect 1) = ''reflect''" by (simp add: exWorldReflect_def)
  have e: "TypeImports (typesPkg exWorldReflect 1) = [2]" by (simp add: exWorldReflect_def)
  have f: "Path (typesPkg exWorldReflect 2) = ''strconv''" by (simp add: exWorldReflect_def)
  have g: "\<not> excluded (Path (typesPkg exWorldReflect 2))" by (simp add: exWorldReflect_def excluded_def)
  have "trace (snd exReflectRun) = [EvBuild ''main'', EvBuild ''reflect'', EvBuild ''strconv'',
          EvTranslate ''strconv'', EvTranslate ''reflect'', EvTranslate ''main'']" by code_simp
  then have h: "EvTranslate ''strconv'' \<in> set (trace (snd exReflectRun))" by simp
  have i: "JavaScriptCode (entry (snd exReflectRun)) = ''prelude'' @ [newline] @ ''code of main;'' @ ''main();''"
    by code_simp
  show ?thesis
    apply (rule conjI [OF a])
    apply (rule conjI [OF b])
    apply (rule conjI [OF c])
    apply (rule conjI [OF d])
    apply (rule conjI [OF e])
    apply (rule conjI [OF f])
    apply (rule conjI [OF g])
    apply (rule conjI [OF h])
    apply (rule i)
    done
qed



end
